theory Spec2Isabelle
  imports Main
begin

section \<open>Nodes, errors and graphs\<close>

text \<open>
  A node is a string or an integer (\<^verbatim>\<open>Node = Union[str, int]\<close>).  The exceptions the
  module can raise are values of \<open>error\<close>: \<open>HasACycle\<close> is \<^verbatim>\<open>nx.HasACycle\<close> (the spec's
  CycleError), \<open>IndexError\<close> the unknown-node error of \<^verbatim>\<open>get_proper_backdoor_graph\<close>,
  \<open>ValueError\<close> the error of \<^verbatim>\<open>close_separator\<close> and of \<^verbatim>\<open>adjustment_set_is_minimal\<close>,
  \<open>TypeError\<close> what \<^verbatim>\<open>set.union(*[])\<close> raises on an empty argument list, and
  \<open>NetworkXError\<close> what networkx raises for a node or edge that is not in the graph.
\<close>

datatype node = NStr string | NInt int

datatype error = HasACycle | IndexError | ValueError | TypeError | NetworkXError

text \<open>
  A networkx graph: the nodes in insertion order and the edges.  A directed graph reads an
  edge \<open>(u, v)\<close> as \<open>u \<rightarrow> v\<close>; an undirected graph reads it in both directions.  Edge
  attributes are never read by the algorithms and are left out.  \<^verbatim>\<open>copy()\<close> is the
  identity on values.
\<close>

record graph =
  nodes :: "node list"
  edges :: "(node \<times> node) list"

definition wf_graph :: "graph \<Rightarrow> bool" where
  "wf_graph G = (distinct (nodes G) \<and>
     list_all (\<lambda>e. fst e \<in> set (nodes G) \<and> snd e \<in> set (nodes G)) (edges G))"

definition ebind :: "error + 'a \<Rightarrow> ('a \<Rightarrow> error + 'b) \<Rightarrow> error + 'b" where
  "ebind m f = (case m of Inl e \<Rightarrow> Inl e | Inr x \<Rightarrow> f x)"

subsection \<open>The networkx operations the module calls\<close>

definition add_node :: "graph \<Rightarrow> node \<Rightarrow> graph" where
  "add_node G v = (if v \<in> set (nodes G) then G else G\<lparr>nodes := nodes G @ [v]\<rparr>)"

definition nx_add_edge :: "graph \<Rightarrow> node \<Rightarrow> node \<Rightarrow> graph" where
  "nx_add_edge G u v =
     (let G' = add_node (add_node G u) v
      in if (u, v) \<in> set (edges G') then G' else G'\<lparr>edges := edges G' @ [(u, v)]\<rparr>)"

definition add_edges_from :: "graph \<Rightarrow> (node \<times> node) list \<Rightarrow> graph" where
  "add_edges_from G es = fold (\<lambda>e H. nx_add_edge H (fst e) (snd e)) es G"

definition remove_nodes_from :: "graph \<Rightarrow> node set \<Rightarrow> graph" where
  "remove_nodes_from G R =
     \<lparr>nodes = filter (\<lambda>n. n \<notin> R) (nodes G),
      edges = filter (\<lambda>e. fst e \<notin> R \<and> snd e \<notin> R) (edges G)\<rparr>"

definition remove_edges_from :: "graph \<Rightarrow> (node \<times> node) list \<Rightarrow> graph" where
  "remove_edges_from G es = G\<lparr>edges := filter (\<lambda>e. e \<notin> set es) (edges G)\<rparr>"

text \<open>\<^verbatim>\<open>remove_edge\<close> raises for an edge that is not there.\<close>

fun remove_edge_seq :: "graph \<Rightarrow> (node \<times> node) list \<Rightarrow> error + graph" where
  "remove_edge_seq G [] = Inr G"
| "remove_edge_seq G (e # es) =
     (if e \<in> set (edges G) then remove_edge_seq (G\<lparr>edges := removeAll e (edges G)\<rparr>) es
      else Inl NetworkXError)"

definition out_edges :: "graph \<Rightarrow> node set \<Rightarrow> (node \<times> node) list" where
  "out_edges G S = filter (\<lambda>e. fst e \<in> S) (edges G)"

definition successors :: "graph \<Rightarrow> node \<Rightarrow> node set" where
  "successors G v = set (map snd (filter (\<lambda>e. fst e = v) (edges G)))"

definition predecessors_list :: "graph \<Rightarrow> node \<Rightarrow> node list" where
  "predecessors_list G v = remdups (map fst (filter (\<lambda>e. snd e = v) (edges G)))"

definition predecessors :: "graph \<Rightarrow> node \<Rightarrow> node set" where
  "predecessors G v = set (predecessors_list G v)"

text \<open>The neighbours of a node in an undirected graph.\<close>

definition neighbors :: "graph \<Rightarrow> node \<Rightarrow> node set" where
  "neighbors G v = successors G v \<union> predecessors G v"

text \<open>
  Breadth-first search by levels, as \<^verbatim>\<open>_plain_bfs\<close> does it: the next level is what the
  current level is adjacent to and has not been seen.  The search stops at an empty level; the
  number of rounds is bounded by the number of nodes.
\<close>

fun bfs_levels :: "(node \<Rightarrow> node set) \<Rightarrow> nat \<Rightarrow> node set \<Rightarrow> node set \<Rightarrow> node set" where
  "bfs_levels nb 0 seen level = seen"
| "bfs_levels nb (Suc n) seen level =
     (if level = {} then seen
      else (let nextlevel = (\<Union>x\<in>level. nb x) - seen
            in bfs_levels nb n (seen \<union> nextlevel) nextlevel))"

definition plain_bfs :: "(node \<Rightarrow> node set) \<Rightarrow> nat \<Rightarrow> node \<Rightarrow> node set" where
  "plain_bfs nb n v = bfs_levels nb n {v} {v}"

definition descendants :: "graph \<Rightarrow> node \<Rightarrow> error + node set" where
  "descendants G v =
     (if v \<in> set (nodes G)
      then Inr (plain_bfs (successors G) (length (nodes G)) v - {v})
      else Inl NetworkXError)"

definition ancestors :: "graph \<Rightarrow> node \<Rightarrow> error + node set" where
  "ancestors G v =
     (if v \<in> set (nodes G)
      then Inr (plain_bfs (predecessors G) (length (nodes G)) v - {v})
      else Inl NetworkXError)"

text \<open>\<^verbatim>\<open>nx.connected_components\<close>: one search from every node not seen yet.\<close>

fun components_from :: "graph \<Rightarrow> node list \<Rightarrow> node set \<Rightarrow> node set list" where
  "components_from G [] seen = []"
| "components_from G (v # vs) seen =
     (if v \<in> seen then components_from G vs seen
      else (let c = plain_bfs (neighbors G) (length (nodes G)) v
            in c # components_from G vs (seen \<union> c)))"

definition connected_components :: "graph \<Rightarrow> node set list" where
  "connected_components G = components_from G (nodes G) {}"

text \<open>\<^verbatim>\<open>itertools.combinations(xs, 2)\<close> and \<^verbatim>\<open>itertools.combinations(xs, k)\<close>.\<close>

fun pairs :: "'a list \<Rightarrow> ('a \<times> 'a) list" where
  "pairs [] = []"
| "pairs (x # xs) = map (Pair x) xs @ pairs xs"

fun combinations :: "'a list \<Rightarrow> nat \<Rightarrow> 'a list list" where
  "combinations xs 0 = [[]]"
| "combinations [] (Suc k) = []"
| "combinations (x # xs) (Suc k) = map ((#) x) (combinations xs k) @ combinations xs (Suc k)"

text \<open>
  \<^verbatim>\<open>nx.moral_graph\<close>: the undirected copy of the graph, plus an edge between every two
  predecessors of a node.
\<close>

definition moral_graph :: "graph \<Rightarrow> graph" where
  "moral_graph G =
     add_edges_from G (concat (map (\<lambda>v. pairs (predecessors_list G v)) (nodes G)))"

text \<open>
  A Python set has no order of its own.  Where the code iterates over a set of nodes of a
  graph, the model iterates in the graph's node order.
\<close>

definition set_in_order :: "graph \<Rightarrow> node set \<Rightarrow> node list" where
  "set_in_order G S = filter (\<lambda>n. n \<in> S) (nodes G)"

text \<open>
  \<^verbatim>\<open>set.union(*[f(x) for x in xs])\<close> over a list: the comprehension is evaluated first
  (the first failing \<open>f x\<close> raises), and \<^verbatim>\<open>set.union\<close> of no arguments raises TypeError.
\<close>

fun collect :: "('a \<Rightarrow> error + node set) \<Rightarrow> 'a list \<Rightarrow> error + node set" where
  "collect f [] = Inr {}"
| "collect f (x # xs) =
     (case f x of Inl e \<Rightarrow> Inl e
      | Inr s \<Rightarrow> (case collect f xs of Inl e \<Rightarrow> Inl e | Inr r \<Rightarrow> Inr (s \<union> r)))"

definition union_all :: "('a \<Rightarrow> error + node set) \<Rightarrow> 'a list \<Rightarrow> error + node set" where
  "union_all f xs =
     (case collect f xs of Inl e \<Rightarrow> Inl e
      | Inr r \<Rightarrow> if xs = [] then Inl TypeError else Inr r)"

text \<open>
  \<^verbatim>\<open>set.union(*[set(nx.neighbors(graph, x)) for x in xs])\<close> over a set of nodes:
  \<^verbatim>\<open>nx.neighbors\<close> raises for a node that is not in the graph.
\<close>

definition neighbors_union :: "graph \<Rightarrow> node set \<Rightarrow> error + node set" where
  "neighbors_union G A =
     (if \<not> A \<subseteq> set (nodes G) then Inl NetworkXError
      else if A = {} then Inl TypeError
      else Inr (\<Union>x\<in>A. neighbors G x))"

section \<open>Separator enumeration\<close>

definition close_separator :: "graph \<Rightarrow> node \<Rightarrow> node \<Rightarrow> node set \<Rightarrow> error + node set" where
  "close_separator G trt outc Xs =
     (case neighbors_union G Xs of
        Inl e \<Rightarrow> Inl e
      | Inr treatment_neighbours \<Rightarrow>
         (case find (\<lambda>c. outc \<in> c)
                 (connected_components (remove_nodes_from G treatment_neighbours)) of
            None \<Rightarrow> Inl ValueError
          | Some component \<Rightarrow>
             (case neighbors_union G component of
                Inl e \<Rightarrow> Inl e
              | Inr nbs \<Rightarrow> Inr (nbs - component))))"

text \<open>
  \<^verbatim>\<open>list(list_all_min_sep(...))\<close>.  The generator chooses its branching node with
  \<^verbatim>\<open>random.sample\<close> from the set of candidates (which Python accepts up to version 3.10);
  the model returns the set of the outcomes of all choices.  An outcome
  is \<open>None\<close> when the recursion is deeper than the fuel, \<open>Some (Inl e)\<close> when the generator
  raises \<open>e\<close>, and \<open>Some (Inr ss)\<close> when it yields the sets \<open>ss\<close>, in this order, and stops.
\<close>

type_synonym outcome = "(error + node set list) option"

fun yield_then :: "outcome \<Rightarrow> outcome \<Rightarrow> outcome" where
  "yield_then None r = None"
| "yield_then (Some (Inl e)) r = Some (Inl e)"
| "yield_then (Some (Inr a)) None = None"
| "yield_then (Some (Inr a)) (Some (Inl e)) = Some (Inl e)"
| "yield_then (Some (Inr a)) (Some (Inr b)) = Some (Inr (a @ b))"

definition yield_both :: "outcome set \<Rightarrow> outcome set \<Rightarrow> outcome set" where
  "yield_both L R = (\<Union>l\<in>L. \<Union>r\<in>R. {yield_then l r})"

definition treatment_component :: "node \<Rightarrow> node set list \<Rightarrow> node set" where
  "treatment_component trt comps = fold (\<lambda>c acc. if trt \<in> c then c else acc) comps {}"

fun list_all_min_sep ::
  "nat \<Rightarrow> graph \<Rightarrow> node \<Rightarrow> node \<Rightarrow> node set \<Rightarrow> node set \<Rightarrow> outcome set" where
  "list_all_min_sep 0 G trt outc Xs Ys = {None}"
| "list_all_min_sep (Suc k) G trt outc Xs Ys =
     (case close_separator G trt outc Xs of
        Inl e \<Rightarrow> {Some (Inl e)}
      | Inr close_separator_set \<Rightarrow>
         (let Xs' = treatment_component trt
                      (connected_components (remove_nodes_from G close_separator_set))
          in if Xs' \<inter> Ys \<noteq> {} then {Some (Inr [])}
             else (case neighbors_union G Xs' of
                     Inl e \<Rightarrow> {Some (Inl e)}
                   | Inr nbs \<Rightarrow>
                      (let F = nbs - Xs'
                       in if F - Ys \<noteq> {}
                          then (\<Union>n\<in>F - Ys.
                                  yield_both
                                    (list_all_min_sep k G trt outc (Xs' \<union> {n}) Ys)
                                    (list_all_min_sep k G trt outc Xs' (Ys \<union> {n})))
                          else {Some (Inr [F])}))))"

text \<open>
  One call of the generator up to its recursive calls, for the proofs: it raises, or it stops
  with what it yields itself, or it branches on one of the candidate nodes with the new
  treatment node set.
\<close>

datatype step = Raise error | Stop "node set list" | Branch "node set" "node set"

definition separator_step :: "graph \<Rightarrow> node \<Rightarrow> node \<Rightarrow> node set \<Rightarrow> node set \<Rightarrow> step" where
  "separator_step G trt outc Xs Ys =
     (case close_separator G trt outc Xs of
        Inl e \<Rightarrow> Raise e
      | Inr close_separator_set \<Rightarrow>
         (let Xs' = treatment_component trt
                      (connected_components (remove_nodes_from G close_separator_set))
          in if Xs' \<inter> Ys \<noteq> {} then Stop []
             else (case neighbors_union G Xs' of
                     Inl e \<Rightarrow> Raise e
                   | Inr nbs \<Rightarrow>
                      (let F = nbs - Xs'
                       in if F - Ys \<noteq> {} then Branch (F - Ys) Xs' else Stop [F]))))"

subsection \<open>Connected components and separators, as the specification words them\<close>

text \<open>
  Two nodes are adjacent when an edge joins them, in either direction.  The component of a
  node is what it reaches along adjacent nodes.  A set \<open>S\<close> of nodes other than the anchors
  separates them when the outcome anchor is not in the treatment anchor's component of the
  graph without \<open>S\<close>; it is a minimal separator when no proper subset separates them.
\<close>

definition adjacency :: "graph \<Rightarrow> (node \<times> node) set" where
  "adjacency G = {(a, b). (a, b) \<in> set (edges G) \<or> (b, a) \<in> set (edges G)}"

definition component_of :: "graph \<Rightarrow> node \<Rightarrow> node set" where
  "component_of G v = {w. (v, w) \<in> (adjacency G)\<^sup>*}"

definition separates :: "graph \<Rightarrow> node \<Rightarrow> node \<Rightarrow> node set \<Rightarrow> bool" where
  "separates G trt outc S =
     (S \<subseteq> set (nodes G) - {trt, outc} \<and> outc \<notin> component_of (remove_nodes_from G S) trt)"

definition minimal_separator :: "graph \<Rightarrow> node \<Rightarrow> node \<Rightarrow> node set \<Rightarrow> bool" where
  "minimal_separator G trt outc S =
     (separates G trt outc S \<and> (\<forall>S'. S' \<subset> S \<longrightarrow> \<not> separates G trt outc S'))"

text \<open>A set of nodes is connected when its nodes reach one another inside the set.\<close>

definition connected_in :: "graph \<Rightarrow> node set \<Rightarrow> bool" where
  "connected_in G A =
     (\<forall>a\<in>A. \<forall>b\<in>A. (a, b) \<in> {(x, y). (x, y) \<in> adjacency G \<and> x \<in> A \<and> y \<in> A}\<^sup>*)"

text \<open>
  The side of a node \<open>v\<close> with respect to \<open>S\<close> is its component once \<open>S\<close> is removed;
  \<open>nbs G A\<close> is the union of the neighbour sets of the nodes of \<open>A\<close>.  The separators between
  \<open>A\<close> and \<open>Y\<close> are the minimal separators whose treatment side holds \<open>A\<close> and has no node
  of \<open>Y\<close>.
\<close>

definition side :: "graph \<Rightarrow> node set \<Rightarrow> node \<Rightarrow> node set" where
  "side G S v = component_of (remove_nodes_from G S) v"

definition nbs :: "graph \<Rightarrow> node set \<Rightarrow> node set" where
  "nbs G A = (\<Union>x\<in>A. neighbors G x)"

definition separators_between ::
  "graph \<Rightarrow> node \<Rightarrow> node \<Rightarrow> node set \<Rightarrow> node set \<Rightarrow> node set set" where
  "separators_between G trt outc A Y =
     {S. minimal_separator G trt outc S \<and> A \<subseteq> side G S trt \<and> side G S trt \<inter> Y = {}}"

text \<open>
  What holds of the arguments at every call of the enumeration in the proofs below: the
  treatment node set is a connected set of nodes that holds the treatment anchor, the outcome
  node set holds the outcome anchor and its neighbours, and the two are disjoint.
  \<open>close_set\<close> is the value \<^verbatim>\<open>close_separator\<close> then returns.
\<close>

definition sep_inv :: "graph \<Rightarrow> node \<Rightarrow> node \<Rightarrow> node set \<Rightarrow> node set \<Rightarrow> bool" where
  "sep_inv G trt outc A Y =
     (wf_graph G \<and> trt \<in> A \<and> A \<subseteq> set (nodes G) \<and> connected_in G A \<and>
      outc \<in> set (nodes G) \<and> outc \<in> Y \<and> neighbors G outc \<subseteq> Y \<and> A \<inter> Y = {})"

definition close_set :: "graph \<Rightarrow> node \<Rightarrow> node set \<Rightarrow> node set" where
  "close_set G outc A = nbs G (side G (nbs G A) outc) - side G (nbs G A) outc"

section \<open>The causal DAG\<close>

text \<open>
  A \<^verbatim>\<open>CausalDAG\<close> wraps one directed graph, \<^verbatim>\<open>self.graph\<close>; the model is that graph.
  \<^verbatim>\<open>nx.simple_cycles\<close> lists a cycle exactly when some node reaches itself along at least
  one edge (a self-loop is a cycle).
\<close>

definition is_acyclic :: "graph \<Rightarrow> bool" where
  "is_acyclic G =
     list_all (\<lambda>v. v \<notin> (\<Union>s\<in>successors G v. plain_bfs (successors G) (length (nodes G)) s))
       (nodes G)"

text \<open>
  \<^verbatim>\<open>add_edge\<close> changes \<^verbatim>\<open>self.graph\<close> and then checks it: the result is the outcome of
  the call together with the graph the object holds afterwards.
\<close>

definition add_edge :: "graph \<Rightarrow> node \<Rightarrow> node \<Rightarrow> (error + unit) \<times> graph" where
  "add_edge G u v =
     (let G' = nx_add_edge G u v
      in if \<not> is_acyclic G' then (Inl HasACycle, G') else (Inr (), G'))"

definition get_backdoor_graph :: "graph \<Rightarrow> node set \<Rightarrow> graph" where
  "get_backdoor_graph G treatments = remove_edges_from G (out_edges G treatments)"

definition proper_causal_pathway :: "graph \<Rightarrow> node list \<Rightarrow> node list \<Rightarrow> error + node set" where
  "proper_causal_pathway G treatments outcomes =
     ebind (union_all (\<lambda>t. ebind (descendants G t) (\<lambda>d. Inr (d \<union> {t}))) treatments)
       (\<lambda>treatments_descendants.
          let treatments_descendants_without_treatments = treatments_descendants - set treatments;
              backdoor_graph = get_backdoor_graph G (set treatments)
          in ebind (union_all (\<lambda>y. ebind (ancestors backdoor_graph y) (\<lambda>a. Inr (a \<union> {y}))) outcomes)
               (\<lambda>outcome_ancestors.
                  Inr (treatments_descendants_without_treatments \<inter> outcome_ancestors)))"

definition get_proper_backdoor_graph :: "graph \<Rightarrow> node list \<Rightarrow> node list \<Rightarrow> error + graph" where
  "get_proper_backdoor_graph G treatments outcomes =
     (if \<not> list_all (\<lambda>var. var \<in> set (nodes G)) (treatments @ outcomes) then Inl IndexError
      else ebind (proper_causal_pathway G treatments outcomes)
             (\<lambda>nodes_on_proper_causal_path.
                Inr (remove_edges_from G
                       (filter (\<lambda>e. snd e \<in> nodes_on_proper_causal_path)
                          (out_edges G (set treatments))))))"

definition get_ancestor_graph :: "graph \<Rightarrow> node list \<Rightarrow> node list \<Rightarrow> error + graph" where
  "get_ancestor_graph G treatments outcomes =
     ebind (union_all (\<lambda>t. ebind (ancestors G t) (\<lambda>a. Inr (a \<union> {t}))) treatments)
       (\<lambda>treatment_ancestors.
          ebind (union_all (\<lambda>y. ebind (ancestors G y) (\<lambda>a. Inr (a \<union> {y}))) outcomes)
            (\<lambda>outcome_ancestors.
               let variables_to_keep = treatment_ancestors \<union> outcome_ancestors;
                   variables_to_remove = set (nodes G) - variables_to_keep
               in Inr (remove_nodes_from G variables_to_remove)))"

definition get_indirect_graph :: "graph \<Rightarrow> node list \<Rightarrow> node list \<Rightarrow> error + graph" where
  "get_indirect_graph G treatments outcomes =
     remove_edge_seq G
       (concat (map (\<lambda>s. concat (map (\<lambda>t. if (s, t) \<in> set (edges G) then [(s, t)] else [])
                                    outcomes)) treatments))"

definition TREATMENT :: node where
  "TREATMENT = NStr ''TREATMENT''"

definition OUTCOME :: node where
  "OUTCOME = NStr ''OUTCOME''"

definition direct_effect_adjustment_sets ::
  "nat \<Rightarrow> graph \<Rightarrow> node list \<Rightarrow> node list \<Rightarrow> outcome set" where
  "direct_effect_adjustment_sets fuel G treatments outcomes =
     (case ebind (get_indirect_graph G treatments outcomes)
             (\<lambda>indirect_graph. get_ancestor_graph indirect_graph treatments outcomes) of
        Inl e \<Rightarrow> {Some (Inl e)}
      | Inr ancestor_graph \<Rightarrow>
         (let gam = moral_graph ancestor_graph;
              edges_to_add = map (Pair TREATMENT) treatments @ map (Pair OUTCOME) outcomes;
              gam = add_edges_from gam edges_to_add
          in list_all_min_sep fuel gam TREATMENT OUTCOME (set treatments) (set outcomes)))"

definition enumerate_minimal_adjustment_sets ::
  "nat \<Rightarrow> graph \<Rightarrow> node list \<Rightarrow> node list \<Rightarrow> outcome set" where
  "enumerate_minimal_adjustment_sets fuel G treatments outcomes =
     (case ebind (get_proper_backdoor_graph G treatments outcomes)
             (\<lambda>proper_backdoor_graph.
                get_ancestor_graph proper_backdoor_graph treatments outcomes) of
        Inl e \<Rightarrow> {Some (Inl e)}
      | Inr ancestor_proper_backdoor_graph \<Rightarrow>
         (let m = moral_graph ancestor_proper_backdoor_graph;
              edges_to_add = map (Pair TREATMENT) treatments @ map (Pair OUTCOME) outcomes;
              m = add_edges_from m edges_to_add
          in case ebind (union_all (\<lambda>t. neighbors_union m {t}) treatments)
                    (\<lambda>tn. ebind (union_all (\<lambda>y. neighbors_union m {y}) outcomes)
                             (\<lambda>yn. Inr (tn - set treatments, yn - set outcomes))) of
               Inl e \<Rightarrow> {Some (Inl e)}
             | Inr (treatment_neighbours, outcome_neighbours) \<Rightarrow>
                (let neighbour_edges_to_add =
                       pairs (set_in_order m treatment_neighbours) @
                       pairs (set_in_order m outcome_neighbours);
                     m = add_edges_from m neighbour_edges_to_add;
                     treatment_node_set = {TREATMENT}
                 in case neighbors_union m {OUTCOME} of
                      Inl e \<Rightarrow> {Some (Inl e)}
                    | Inr ns \<Rightarrow>
                       list_all_min_sep fuel m TREATMENT OUTCOME treatment_node_set
                         (ns \<union> {OUTCOME}))))"

text \<open>
  The pipeline of \<^verbatim>\<open>enumerate_minimal_adjustment_sets\<close> as the specification describes it,
  started from any derived graph: restriction to the ancestors of treatments and outcomes,
  moralisation, the two anchor nodes, the pairwise connection of the neighbours of treatments
  and of the neighbours of outcomes, and the separator enumeration from the anchor sets
  \<open>{TREATMENT}\<close> and \<open>neighbors(OUTCOME) \<union> {OUTCOME}\<close>.
\<close>

definition adjustment_pipeline ::
  "(graph \<Rightarrow> node list \<Rightarrow> node list \<Rightarrow> error + graph) \<Rightarrow>
     nat \<Rightarrow> graph \<Rightarrow> node list \<Rightarrow> node list \<Rightarrow> outcome set" where
  "adjustment_pipeline derive fuel G treatments outcomes =
     (case ebind (derive G treatments outcomes)
             (\<lambda>derived. get_ancestor_graph derived treatments outcomes) of
        Inl e \<Rightarrow> {Some (Inl e)}
      | Inr ancestor_graph \<Rightarrow>
         (let m = add_edges_from (moral_graph ancestor_graph)
                    (map (Pair TREATMENT) treatments @ map (Pair OUTCOME) outcomes)
          in case ebind (union_all (\<lambda>t. neighbors_union m {t}) treatments)
                    (\<lambda>tn. ebind (union_all (\<lambda>y. neighbors_union m {y}) outcomes)
                       (\<lambda>yn. Inr (add_edges_from m
                          (pairs (set_in_order m (tn - set treatments)) @
                           pairs (set_in_order m (yn - set outcomes)))))) of
               Inl e \<Rightarrow> {Some (Inl e)}
             | Inr m' \<Rightarrow>
                (case neighbors_union m' {OUTCOME} of
                   Inl e \<Rightarrow> {Some (Inl e)}
                 | Inr ns \<Rightarrow>
                    list_all_min_sep fuel m' TREATMENT OUTCOME {TREATMENT} (ns \<union> {OUTCOME}))))"

text \<open>
  \<^verbatim>\<open>nx.d_separated\<close> is the library's d-separation test.  The module only calls it; it is
  a parameter \<open>dsep\<close> of the functions that do.
\<close>

type_synonym d_separated = "graph \<Rightarrow> node set \<Rightarrow> node set \<Rightarrow> node set \<Rightarrow> bool"

definition constructive_backdoor_criterion ::
  "d_separated \<Rightarrow> graph \<Rightarrow> graph \<Rightarrow> node list \<Rightarrow> node list \<Rightarrow> node set \<Rightarrow> error + bool" where
  "constructive_backdoor_criterion dsep G proper_backdoor_graph treatments outcomes covariates =
     ebind (proper_causal_pathway G treatments outcomes)
       (\<lambda>proper_causal_path_vars.
          ebind (union_all (\<lambda>v. ebind (descendants G v) (\<lambda>d. Inr (d \<union> {v})))
                   (set_in_order G proper_causal_path_vars))
            (\<lambda>descendents_of_proper_casual_paths.
               if \<not> covariates \<subseteq> set (nodes G) - descendents_of_proper_casual_paths
               then Inr False
               else if \<not> dsep proper_backdoor_graph (set treatments) (set outcomes) covariates
               then Inr False
               else Inr True))"

text \<open>The loop of \<^verbatim>\<open>adjustment_set_is_minimal\<close> over the elements of the adjustment set.\<close>

fun smaller_sets_fail ::
  "d_separated \<Rightarrow> graph \<Rightarrow> graph \<Rightarrow> node list \<Rightarrow> node list \<Rightarrow> node set \<Rightarrow> node list
     \<Rightarrow> error + bool" where
  "smaller_sets_fail dsep G pbg treatments outcomes adjustment_set [] = Inr True"
| "smaller_sets_fail dsep G pbg treatments outcomes adjustment_set (variable # rest) =
     (case constructive_backdoor_criterion dsep G pbg treatments outcomes
             (adjustment_set - {variable}) of
        Inl e \<Rightarrow> Inl e
      | Inr True \<Rightarrow> Inr False
      | Inr False \<Rightarrow> smaller_sets_fail dsep G pbg treatments outcomes adjustment_set rest)"

definition adjustment_set_is_minimal ::
  "d_separated \<Rightarrow> graph \<Rightarrow> node list \<Rightarrow> node list \<Rightarrow> node set \<Rightarrow> error + bool" where
  "adjustment_set_is_minimal dsep G treatments outcomes adjustment_set =
     ebind (get_proper_backdoor_graph G treatments outcomes)
       (\<lambda>proper_backdoor_graph.
          ebind (constructive_backdoor_criterion dsep G proper_backdoor_graph treatments outcomes
                   adjustment_set)
            (\<lambda>ok. if \<not> ok then Inl ValueError
                   else smaller_sets_fail dsep G proper_backdoor_graph treatments outcomes
                          adjustment_set (set_in_order G adjustment_set)))"

section \<open>Conditional independence relationships\<close>

record conditional_independence =
  ci_X :: node
  ci_Y :: node
  ci_Z :: "node set"

text \<open>
  \<^verbatim>\<open>ConditionalIndependence(x, y)\<close> without a conditioning set stores the empty list; the
  model stores the empty set.  The remaining nodes are a Python set; the model takes their
  combinations in the graph's node order.

  The sizes \<^verbatim>\<open>range(start, end, step)\<close> runs through: \<open>1, \<dots>, n\<close>, or, after
  \<^verbatim>\<open>start, end = end, start\<close> with step \<open>-1\<close>, \<open>n + 1, n, \<dots>, 2\<close>.
\<close>

definition adjustment_set_sizes :: "string \<Rightarrow> nat \<Rightarrow> nat list" where
  "adjustment_set_sizes search_heuristic n =
     (let start = 1; end = n + 1
      in if search_heuristic = ''maximal'' then rev [Suc start..<Suc end] else [start..<end])"

definition valid_sets_of_size ::
  "d_separated \<Rightarrow> graph \<Rightarrow> string \<Rightarrow> node \<Rightarrow> node \<Rightarrow> node list \<Rightarrow> nat
     \<Rightarrow> conditional_independence list" where
  "valid_sets_of_size dsep G search_heuristic x y ns adjustment_set_size =
     concat (map (\<lambda>zs.
        let zs_set = (if search_heuristic = ''min_direct''
                      then set (zs @ predecessors_list G y) else set zs)
        in if dsep G {x} {y} zs_set then [\<lparr>ci_X = x, ci_Y = y, ci_Z = zs_set\<rparr>] else [])
       (combinations ns adjustment_set_size))"

fun scan_sizes ::
  "d_separated \<Rightarrow> graph \<Rightarrow> string \<Rightarrow> node \<Rightarrow> node \<Rightarrow> node list \<Rightarrow> nat list
     \<Rightarrow> conditional_independence list" where
  "scan_sizes dsep G search_heuristic x y ns [] = []"
| "scan_sizes dsep G search_heuristic x y ns (adjustment_set_size # sizes) =
     (let found = valid_sets_of_size dsep G search_heuristic x y ns adjustment_set_size
      in if search_heuristic \<noteq> ''all'' \<and> found \<noteq> [] then found
         else found @ scan_sizes dsep G search_heuristic x y ns sizes)"

definition relationships_of_pair ::
  "d_separated \<Rightarrow> graph \<Rightarrow> string \<Rightarrow> node \<times> node \<Rightarrow> conditional_independence list" where
  "relationships_of_pair dsep G search_heuristic node_pair =
     (let x = fst node_pair; y = snd node_pair;
          ns = filter (\<lambda>n. n \<noteq> x \<and> n \<noteq> y) (nodes G)
      in (if dsep G {x} {y} {} then [\<lparr>ci_X = x, ci_Y = y, ci_Z = {}\<rparr>] else []) @
         scan_sizes dsep G search_heuristic x y ns
           (adjustment_set_sizes search_heuristic (length ns)))"

definition list_conditional_independence_relationships ::
  "d_separated \<Rightarrow> graph \<Rightarrow> string \<Rightarrow> conditional_independence list option" where
  "list_conditional_independence_relationships dsep G search_heuristic =
     (if length (nodes G) < 2 then None
      else Some (concat (map (relationships_of_pair dsep G search_heuristic)
                           (pairs (nodes G)))))"

section \<open>The graphs of the scenarios\<close>

definition abcd_dag :: graph where
  "abcd_dag =
     \<lparr>nodes = [NStr ''A'', NStr ''B'', NStr ''C'', NStr ''D''],
      edges = [(NStr ''A'', NStr ''B''), (NStr ''B'', NStr ''C''), (NStr ''D'', NStr ''A''),
               (NStr ''D'', NStr ''C'')]\<rparr>"

definition scenario_dag :: graph where
  "scenario_dag =
     \<lparr>nodes = [NStr ''X1'', NStr ''X2'', NStr ''V'', NStr ''D1'', NStr ''D2'', NStr ''Y'',
               NStr ''D3'', NStr ''Z''],
      edges = [(NStr ''X1'', NStr ''X2''), (NStr ''X2'', NStr ''V''), (NStr ''X2'', NStr ''D1''),
               (NStr ''X2'', NStr ''D2''), (NStr ''D1'', NStr ''Y''), (NStr ''D1'', NStr ''D2''),
               (NStr ''Y'', NStr ''D3''), (NStr ''Z'', NStr ''X2''), (NStr ''Z'', NStr ''Y'')]\<rparr>"

definition m_bias_dag :: graph where
  "m_bias_dag =
     \<lparr>nodes = [NStr ''X1'', NStr ''X2'', NStr ''V'', NStr ''Z1'', NStr ''Z2'', NStr ''Z3'',
               NStr ''Y'', NStr ''D1'', NStr ''D2'', NStr ''D3''],
      edges = [(NStr ''X1'', NStr ''X2''), (NStr ''X2'', NStr ''V''), (NStr ''Z1'', NStr ''X2''),
               (NStr ''Z1'', NStr ''Z2''), (NStr ''Z2'', NStr ''Z3''), (NStr ''Z3'', NStr ''Y''),
               (NStr ''D1'', NStr ''Y''), (NStr ''D1'', NStr ''D2''), (NStr ''Y'', NStr ''D3'')]\<rparr>"

definition separator_graph :: graph where
  "separator_graph =
     \<lparr>nodes = [NStr ''a'', NInt 2, NInt 3, NInt 4, NInt 5, NStr ''b''],
      edges = [(NStr ''a'', NInt 2), (NStr ''a'', NInt 3), (NInt 2, NInt 4), (NInt 3, NInt 5),
               (NInt 3, NInt 4), (NInt 4, NStr ''b''), (NInt 5, NStr ''b'')]\<rparr>"

text \<open>A common cause \<open>Z\<close> of \<open>X\<close> and \<open>Y\<close>, and no effect of \<open>X\<close> on \<open>Y\<close>.\<close>

definition fork_dag :: graph where
  "fork_dag =
     \<lparr>nodes = [NStr ''Z'', NStr ''X'', NStr ''Y''],
      edges = [(NStr ''Z'', NStr ''X''), (NStr ''Z'', NStr ''Y'')]\<rparr>"

definition chain_dag :: graph where
  "chain_dag =
     \<lparr>nodes = [NStr ''A'', NStr ''B'', NStr ''C''],
      edges = [(NStr ''A'', NStr ''B''), (NStr ''B'', NStr ''C'')]\<rparr>"

section \<open>Breadth-first search computes what a node reaches\<close>

lemma bfs_levels_sound:
  "seen \<subseteq> {w. (v, w) \<in> {(a, b). b \<in> nb a}\<^sup>*} \<Longrightarrow> level \<subseteq> seen \<Longrightarrow>
   bfs_levels nb n seen level \<subseteq> {w. (v, w) \<in> {(a, b). b \<in> nb a}\<^sup>*}"
proof (induction n arbitrary: seen level)
  case 0
  then show ?case by simp
next
  case (Suc n)
  show ?case
  proof (cases "level = {}")
    case True
    then show ?thesis using Suc.prems by simp
  next
    case False
    let ?nx = "(\<Union>x\<in>level. nb x) - seen"
    have "?nx \<subseteq> {w. (v, w) \<in> {(a, b). b \<in> nb a}\<^sup>*}"
    proof
      fix w assume "w \<in> ?nx"
      then obtain x where x: "x \<in> level" "w \<in> nb x" by blast
      with Suc.prems have "(v, x) \<in> {(a, b). b \<in> nb a}\<^sup>*" by blast
      moreover have "(x, w) \<in> {(a, b). b \<in> nb a}" using x by simp
      ultimately show "w \<in> {w. (v, w) \<in> {(a, b). b \<in> nb a}\<^sup>*}"
        by (simp add: rtrancl_into_rtrancl)
    qed
    then have "bfs_levels nb n (seen \<union> ?nx) ?nx \<subseteq> {w. (v, w) \<in> {(a, b). b \<in> nb a}\<^sup>*}"
      using Suc.prems by (intro Suc.IH) auto
    then show ?thesis using False by (simp add: Let_def)
  qed
qed

lemma bfs_levels_closed:
  "finite V \<Longrightarrow> seen \<subseteq> V \<Longrightarrow> level \<subseteq> seen \<Longrightarrow> (\<forall>x\<in>V. nb x \<subseteq> V) \<Longrightarrow>
   (\<forall>x\<in>seen - level. nb x \<subseteq> seen) \<Longrightarrow>
   card (V - seen) + (if level = {} then 0 else 1) \<le> n \<Longrightarrow>
   seen \<subseteq> bfs_levels nb n seen level \<and>
   (\<forall>x\<in>bfs_levels nb n seen level. nb x \<subseteq> bfs_levels nb n seen level)"
proof (induction n arbitrary: seen level)
  case 0
  then have "level = {}" by (simp split: if_splits)
  with 0 show ?case by simp
next
  case (Suc n)
  show ?case
  proof (cases "level = {}")
    case True
    with Suc.prems show ?thesis by simp
  next
    case False
    define nx where "nx = (\<Union>x\<in>level. nb x) - seen"
    have sub: "nx \<subseteq> V - seen" using Suc.prems by (auto simp: nx_def)
    have fin: "finite (V - seen)" using Suc.prems by simp
    have le: "card (V - seen) \<le> n" using Suc.prems(6) False by simp
    have c: "card (V - (seen \<union> nx)) + (if nx = {} then 0 else 1) \<le> n"
    proof (cases "nx = {}")
      case True
      then show ?thesis using le by simp
    next
      case nonempty: False
      have "V - (seen \<union> nx) = (V - seen) - nx" by blast
      moreover have "card ((V - seen) - nx) < card (V - seen)"
        using sub nonempty fin by (intro psubset_card_mono) auto
      ultimately show ?thesis using le nonempty by simp
    qed
    have cl: "\<forall>x\<in>(seen \<union> nx) - nx. nb x \<subseteq> seen \<union> nx"
      using Suc.prems(3,5) by (auto simp: nx_def)
    have "seen \<union> nx \<subseteq> bfs_levels nb n (seen \<union> nx) nx \<and>
          (\<forall>x\<in>bfs_levels nb n (seen \<union> nx) nx. nb x \<subseteq> bfs_levels nb n (seen \<union> nx) nx)"
      using Suc.prems(1,2,4) sub c cl by (intro Suc.IH) auto
    then show ?thesis using False by (simp add: Let_def nx_def)
  qed
qed

lemma plain_bfs_reachable:
  assumes "finite V" "v \<in> V" "\<forall>x\<in>V. nb x \<subseteq> V" "card V \<le> n"
  shows "plain_bfs nb n v = {w. (v, w) \<in> {(a, b). b \<in> nb a}\<^sup>*}"
proof
  show "plain_bfs nb n v \<subseteq> {w. (v, w) \<in> {(a, b). b \<in> nb a}\<^sup>*}"
    unfolding plain_bfs_def by (rule bfs_levels_sound) auto
next
  let ?r = "plain_bfs nb n v"
  have "card (V - {v}) + 1 \<le> n"
    using assms by (simp add: card_Diff_singleton Suc_leI card_gt_0_iff)
       (metis Suc_pred card_gt_0_iff empty_iff)
  then have cl: "{v} \<subseteq> ?r \<and> (\<forall>x\<in>?r. nb x \<subseteq> ?r)"
    unfolding plain_bfs_def using assms by (intro bfs_levels_closed[of V]) auto
  show "{w. (v, w) \<in> {(a, b). b \<in> nb a}\<^sup>*} \<subseteq> ?r"
  proof
    fix w assume "w \<in> {w. (v, w) \<in> {(a, b). b \<in> nb a}\<^sup>*}"
    then have "(v, w) \<in> {(a, b). b \<in> nb a}\<^sup>*" by simp
    then show "w \<in> ?r"
    proof (induction rule: rtrancl_induct)
      case base
      then show ?case using cl by blast
    next
      case (step y z)
      then show ?case using cl by blast
    qed
  qed
qed

lemma neighbors_adjacency: "w \<in> neighbors G v \<longleftrightarrow> (v, w) \<in> adjacency G"
  by (auto simp: neighbors_def successors_def predecessors_def predecessors_list_def adjacency_def image_iff)

lemma adjacency_sym: "(a, b) \<in> adjacency G \<Longrightarrow> (b, a) \<in> adjacency G"
  by (auto simp: adjacency_def)

lemma adjacency_nodes: "wf_graph G \<Longrightarrow> (a, b) \<in> adjacency G \<Longrightarrow> a \<in> set (nodes G) \<and> b \<in> set (nodes G)"
  by (auto simp: adjacency_def wf_graph_def list_all_iff)

lemma plain_bfs_component:
  assumes "wf_graph G" "v \<in> set (nodes G)"
  shows "plain_bfs (neighbors G) (length (nodes G)) v = component_of G v"
proof -
  have "\<forall>x\<in>set (nodes G). neighbors G x \<subseteq> set (nodes G)"
    using assms(1) by (auto simp: neighbors_adjacency dest: adjacency_nodes)
  moreover have "card (set (nodes G)) \<le> length (nodes G)" by (rule card_length)
  ultimately have "plain_bfs (neighbors G) (length (nodes G)) v =
      {w. (v, w) \<in> {(a, b). b \<in> neighbors G a}\<^sup>*}"
    using assms(2) by (intro plain_bfs_reachable[of "set (nodes G)"]) auto
  moreover have "{(a, b). b \<in> neighbors G a} = adjacency G"
    by (auto simp: neighbors_adjacency)
  ultimately show ?thesis by (simp add: component_of_def)
qed

section \<open>The components the code finds\<close>

lemma component_of_refl: "v \<in> component_of G v"
  by (simp add: component_of_def)

lemma component_of_eq:
  assumes "w \<in> component_of G v"
  shows "component_of G w = component_of G v"
proof -
  have vw: "(v, w) \<in> (adjacency G)\<^sup>*" using assms by (simp add: component_of_def)
  have "sym (adjacency G)" by (auto simp: sym_def adjacency_def)
  then have "sym ((adjacency G)\<^sup>*)" by (rule sym_rtrancl)
  with vw have wv: "(w, v) \<in> (adjacency G)\<^sup>*" by (simp add: sym_def)
  show ?thesis
    unfolding component_of_def using vw wv by (auto intro: rtrancl_trans)
qed

lemma component_of_nodes:
  assumes "wf_graph G" "v \<in> set (nodes G)"
  shows "component_of G v \<subseteq> set (nodes G)"
proof
  fix w assume "w \<in> component_of G v"
  then have "(v, w) \<in> (adjacency G)\<^sup>*" by (simp add: component_of_def)
  then show "w \<in> set (nodes G)"
    by (induction rule: rtrancl_induct) (use assms in \<open>auto dest: adjacency_nodes\<close>)
qed

lemma components_from_members:
  "wf_graph G \<Longrightarrow> set vs \<subseteq> set (nodes G) \<Longrightarrow> c \<in> set (components_from G vs seen) \<Longrightarrow>
   \<exists>v\<in>set vs. c = component_of G v"
proof (induction vs arbitrary: seen)
  case Nil
  then show ?case by simp
next
  case (Cons a vs)
  then show ?case
    by (auto simp: Let_def plain_bfs_component split: if_splits)
qed

lemma find_components_from:
  "wf_graph G \<Longrightarrow> set vs \<subseteq> set (nodes G) \<Longrightarrow> (\<forall>x\<in>seen. component_of G x \<subseteq> seen) \<Longrightarrow>
   v \<in> set vs \<Longrightarrow> v \<notin> seen \<Longrightarrow>
   find (\<lambda>c. v \<in> c) (components_from G vs seen) = Some (component_of G v)"
proof (induction vs arbitrary: seen)
  case Nil
  then show ?case by simp
next
  case (Cons a vs)
  show ?case
  proof (cases "a \<in> seen")
    case True
    then have "a \<noteq> v" using Cons.prems by blast
    then show ?thesis using Cons True by simp
  next
    case False
    have ca: "plain_bfs (neighbors G) (length (nodes G)) a = component_of G a"
      using Cons.prems by (simp add: plain_bfs_component)
    show ?thesis
    proof (cases "v \<in> component_of G a")
      case True
      then show ?thesis using False ca by (simp add: Let_def component_of_eq)
    next
      case notin: False
      then have "a \<noteq> v" using component_of_refl by blast
      moreover have "\<forall>x\<in>seen \<union> component_of G a. component_of G x \<subseteq> seen \<union> component_of G a"
        using Cons.prems(3) component_of_eq by blast
      ultimately have "find (\<lambda>c. v \<in> c) (components_from G vs (seen \<union> component_of G a)) =
          Some (component_of G v)"
        using Cons.prems notin by (intro Cons.IH) auto
      then show ?thesis using False ca notin by (simp add: Let_def)
    qed
  qed
qed

lemma find_connected_components:
  assumes "wf_graph G"
  shows "find (\<lambda>c. v \<in> c) (connected_components G) =
         (if v \<in> set (nodes G) then Some (component_of G v) else None)"
proof (cases "v \<in> set (nodes G)")
  case True
  then show ?thesis
    unfolding connected_components_def using assms by (simp add: find_components_from)
next
  case False
  have "\<not> (\<exists>c\<in>set (connected_components G). v \<in> c)"
  proof
    assume "\<exists>c\<in>set (connected_components G). v \<in> c"
    then obtain c where c: "c \<in> set (connected_components G)" "v \<in> c" by blast
    then obtain a where "a \<in> set (nodes G)" "c = component_of G a"
      unfolding connected_components_def using assms components_from_members[of G "nodes G" c "{}"]
      by auto
    then show False using c False component_of_nodes[OF assms] by blast
  qed
  then show ?thesis using False by (simp add: find_None_iff)
qed

lemma fold_treatment_component:
  "(\<forall>c\<in>set cs. t \<in> c \<longrightarrow> c = C) \<Longrightarrow>
   fold (\<lambda>c acc. if t \<in> c then c else acc) cs acc = (if \<exists>c\<in>set cs. t \<in> c then C else acc)"
  by (induction cs arbitrary: acc) auto

lemma treatment_component_connected_components:
  assumes "wf_graph G"
  shows "treatment_component t (connected_components G) =
         (if t \<in> set (nodes G) then component_of G t else {})"
proof -
  have all: "\<forall>c\<in>set (connected_components G). t \<in> c \<longrightarrow> c = component_of G t"
  proof (intro ballI impI)
    fix c assume c: "c \<in> set (connected_components G)" "t \<in> c"
    then obtain a where "a \<in> set (nodes G)" "c = component_of G a"
      unfolding connected_components_def using assms components_from_members[of G "nodes G" c "{}"]
      by auto
    then show "c = component_of G t" using c component_of_eq by blast
  qed
  have ex: "(\<exists>c\<in>set (connected_components G). t \<in> c) \<longleftrightarrow> t \<in> set (nodes G)"
    using find_connected_components[OF assms, of t]
    by (auto simp: find_None_iff find_Some_iff split: if_splits)
  show ?thesis
    unfolding treatment_component_def using fold_treatment_component[OF all] ex by simp
qed

lemma wf_remove_nodes_from: "wf_graph G \<Longrightarrow> wf_graph (remove_nodes_from G R)"
  by (auto simp: wf_graph_def remove_nodes_from_def list_all_iff)

lemma nodes_remove_nodes_from: "set (nodes (remove_nodes_from G R)) = set (nodes G) - R"
  by (auto simp: remove_nodes_from_def)

lemma adjacency_remove_nodes_from:
  "adjacency (remove_nodes_from G R) = {(a, b). (a, b) \<in> adjacency G \<and> a \<notin> R \<and> b \<notin> R}"
  by (auto simp: remove_nodes_from_def adjacency_def)

section \<open>The generator, one call at a time\<close>

lemma list_all_min_sep_step:
  "list_all_min_sep (Suc k) G trt outc Xs Ys =
     (case separator_step G trt outc Xs Ys of
        Raise e \<Rightarrow> {Some (Inl e)}
      | Stop ss \<Rightarrow> {Some (Inr ss)}
      | Branch C A \<Rightarrow>
          (\<Union>n\<in>C. yield_both (list_all_min_sep k G trt outc (A \<union> {n}) Ys)
                              (list_all_min_sep k G trt outc A (Ys \<union> {n}))))"
  by (simp add: separator_step_def Let_def split: sum.splits)

declare list_all_min_sep.simps [simp del]

lemma separator_step_Branch: "separator_step G trt outc Xs Ys = Branch C A \<Longrightarrow> C \<noteq> {}"
  by (auto simp: separator_step_def Let_def split: sum.splits if_splits)

lemma yield_both_nonempty: "L \<noteq> {} \<Longrightarrow> R \<noteq> {} \<Longrightarrow> yield_both L R \<noteq> {}"
  by (auto simp: yield_both_def)

lemma list_all_min_sep_nonempty: "list_all_min_sep k G trt outc Xs Ys \<noteq> {}"
proof (induction k arbitrary: Xs Ys)
  case 0
  then show ?case by (simp add: list_all_min_sep.simps(1))
next
  case (Suc k)
  show ?case
  proof (cases "separator_step G trt outc Xs Ys")
    case (Branch C A)
    then obtain n where "n \<in> C" using separator_step_Branch by blast
    then show ?thesis
      using Branch yield_both_nonempty[OF Suc.IH Suc.IH]
      by (simp add: list_all_min_sep_step) blast
  qed (simp_all add: list_all_min_sep_step)
qed

lemma yield_both_None_left: "None \<in> L \<Longrightarrow> R \<noteq> {} \<Longrightarrow> None \<in> yield_both L R"
  by (force simp: yield_both_def)

lemma yield_both_more_fuel:
  assumes "None \<notin> yield_both L R" "R \<noteq> {}" "R' \<noteq> {}" "None \<notin> R \<Longrightarrow> R' = R"
  shows "yield_both L R' = yield_both L R"
proof (cases "None \<in> R")
  case False
  then show ?thesis using assms by simp
next
  case True
  have err: "\<exists>e. l = Some (Inl e)" if "l \<in> L" for l
  proof (cases l)
    case None
    then show ?thesis using that assms(1,2) yield_both_None_left by blast
  next
    case (Some x)
    show ?thesis
    proof (cases x)
      case (Inl e)
      then show ?thesis using Some by simp
    next
      case (Inr a)
      then have "yield_then l None = None" using Some by simp
      then have "None \<in> yield_both L R" using that True by (force simp: yield_both_def)
      then show ?thesis using assms(1) by simp
    qed
  qed
  have "yield_both L Q = L" if "Q \<noteq> {}" for Q
  proof -
    have "yield_then l r = l" if "l \<in> L" for l r using err[OF that] by auto
    then show ?thesis using \<open>Q \<noteq> {}\<close> by (auto simp: yield_both_def)
  qed
  then show ?thesis using assms(2,3) by simp
qed

lemma list_all_min_sep_Suc_fuel:
  "None \<notin> list_all_min_sep k G trt outc Xs Ys \<Longrightarrow>
   list_all_min_sep (Suc k) G trt outc Xs Ys = list_all_min_sep k G trt outc Xs Ys"
proof (induction k arbitrary: Xs Ys)
  case 0
  then show ?case by (simp add: list_all_min_sep.simps(1))
next
  case (Suc k)
  show ?case
  proof (cases "separator_step G trt outc Xs Ys")
    case (Branch C A)
    have "yield_both (list_all_min_sep (Suc k) G trt outc (A \<union> {n}) Ys)
                     (list_all_min_sep (Suc k) G trt outc A (Ys \<union> {n})) =
          yield_both (list_all_min_sep k G trt outc (A \<union> {n}) Ys)
                     (list_all_min_sep k G trt outc A (Ys \<union> {n}))" if "n \<in> C" for n
    proof -
      have nn: "None \<notin> yield_both (list_all_min_sep k G trt outc (A \<union> {n}) Ys)
                     (list_all_min_sep k G trt outc A (Ys \<union> {n}))"
      proof
        assume a: "None \<in> yield_both (list_all_min_sep k G trt outc (A \<union> {n}) Ys)
                     (list_all_min_sep k G trt outc A (Ys \<union> {n}))"
        have "list_all_min_sep (Suc k) G trt outc Xs Ys =
           (\<Union>n\<in>C. yield_both (list_all_min_sep k G trt outc (A \<union> {n}) Ys)
                              (list_all_min_sep k G trt outc A (Ys \<union> {n})))"
          by (simp add: list_all_min_sep_step Branch)
        then have "None \<in> list_all_min_sep (Suc k) G trt outc Xs Ys"
          using a that by blast
        then show False using Suc.prems by simp
      qed
      then have "None \<notin> list_all_min_sep k G trt outc (A \<union> {n}) Ys"
        using yield_both_None_left[OF _ list_all_min_sep_nonempty] by blast
      then have l: "list_all_min_sep (Suc k) G trt outc (A \<union> {n}) Ys =
                 list_all_min_sep k G trt outc (A \<union> {n}) Ys"
        by (rule Suc.IH)
      show ?thesis
        unfolding l
        by (rule yield_both_more_fuel[OF nn list_all_min_sep_nonempty list_all_min_sep_nonempty])
           (rule Suc.IH)
    qed
    then show ?thesis
      using Branch
      by (simp add: list_all_min_sep_step[of "Suc k"] list_all_min_sep_step[of k]
           )
  qed (simp_all add: list_all_min_sep_step)
qed

lemma list_all_min_sep_more_fuel:
  "None \<notin> list_all_min_sep k G trt outc Xs Ys \<Longrightarrow>
   list_all_min_sep (k + j) G trt outc Xs Ys = list_all_min_sep k G trt outc Xs Ys"
proof (induction j)
  case 0
  then show ?case by simp
next
  case (Suc j)
  then show ?case using list_all_min_sep_Suc_fuel[of "k + j" G trt outc Xs Ys] by simp
qed

lemma enumerate_is_pipeline:
  "enumerate_minimal_adjustment_sets fuel G treatments outcomes =
   adjustment_pipeline get_proper_backdoor_graph fuel G treatments outcomes"
  by (simp add: enumerate_minimal_adjustment_sets_def adjustment_pipeline_def Let_def ebind_def
      split: sum.splits prod.splits)

lemma adjustment_pipeline_more_fuel:
  "None \<notin> adjustment_pipeline derive k G treatments outcomes \<Longrightarrow>
   adjustment_pipeline derive (k + j) G treatments outcomes =
   adjustment_pipeline derive k G treatments outcomes"
  unfolding adjustment_pipeline_def Let_def
  by (auto split: sum.splits prod.splits simp: list_all_min_sep_more_fuel)

lemma direct_effect_more_fuel:
  "None \<notin> direct_effect_adjustment_sets k G treatments outcomes \<Longrightarrow>
   direct_effect_adjustment_sets (k + j) G treatments outcomes =
   direct_effect_adjustment_sets k G treatments outcomes"
  unfolding direct_effect_adjustment_sets_def Let_def
  by (auto split: sum.splits simp: list_all_min_sep_more_fuel)

section \<open>The proper causal pathway is computed for nodes of the graph\<close>

lemma collect_Inr:
  "(\<And>x. x \<in> set xs \<Longrightarrow> \<exists>s. f x = Inr s) \<Longrightarrow> \<exists>r. collect f xs = Inr r"
proof (induction xs)
  case Nil
  then show ?case by simp
next
  case (Cons a xs)
  then obtain s where "f a = Inr s" by (meson list.set_intros(1))
  moreover obtain r where "collect f xs = Inr r" using Cons by (meson list.set_intros(2))
  ultimately show ?case by simp
qed

lemma union_all_Inr:
  "xs \<noteq> [] \<Longrightarrow> (\<And>x. x \<in> set xs \<Longrightarrow> \<exists>s. f x = Inr s) \<Longrightarrow> \<exists>r. union_all f xs = Inr r"
  using collect_Inr[of xs f] by (auto simp: union_all_def)

lemma proper_causal_pathway_Inr:
  assumes "treatments \<noteq> []" "outcomes \<noteq> []" "set treatments \<union> set outcomes \<subseteq> set (nodes G)"
  shows "\<exists>pcp. proper_causal_pathway G treatments outcomes = Inr pcp"
proof -
  have "\<exists>s. ebind (descendants G t) (\<lambda>d. Inr (d \<union> {t})) = Inr s" if "t \<in> set treatments" for t
    using that assms(3) by (auto simp: descendants_def ebind_def)
  then obtain d where
    d: "union_all (\<lambda>t. ebind (descendants G t) (\<lambda>d. Inr (d \<union> {t}))) treatments = Inr d"
    using union_all_Inr[OF assms(1), of "\<lambda>t. ebind (descendants G t) (\<lambda>d. Inr (d \<union> {t}))"]
    by blast
  have n: "nodes (get_backdoor_graph G (set treatments)) = nodes G"
    by (simp add: get_backdoor_graph_def remove_edges_from_def)
  have "\<exists>s. ebind (ancestors (get_backdoor_graph G (set treatments)) y) (\<lambda>a. Inr (a \<union> {y})) = Inr s"
    if "y \<in> set outcomes" for y
    using that assms(3) n by (auto simp: ancestors_def ebind_def)
  then obtain a where "union_all (\<lambda>y. ebind (ancestors (get_backdoor_graph G (set treatments)) y)
      (\<lambda>a. Inr (a \<union> {y}))) outcomes = Inr a"
    using union_all_Inr[OF assms(2),
        of "\<lambda>y. ebind (ancestors (get_backdoor_graph G (set treatments)) y) (\<lambda>a. Inr (a \<union> {y}))"]
    by blast
  with d show ?thesis by (simp add: proper_causal_pathway_def ebind_def Let_def)
qed

lemma remove_first_edges:
  "remove_edges_from G (filter (\<lambda>e. snd e \<in> P) (out_edges G X)) =
   \<lparr>nodes = nodes G, edges = filter (\<lambda>e. \<not> (fst e \<in> X \<and> snd e \<in> P)) (edges G)\<rparr>"
proof -
  have "filter (\<lambda>e. e \<notin> set (filter (\<lambda>e. snd e \<in> P) (out_edges G X))) (edges G) =
        filter (\<lambda>e. \<not> (fst e \<in> X \<and> snd e \<in> P)) (edges G)"
    by (rule filter_cong) (auto simp: out_edges_def)
  then show ?thesis by (simp add: remove_edges_from_def)
qed

section \<open>Sides of a separator\<close>

lemma nbs_iff: "z \<in> nbs G A \<longleftrightarrow> (\<exists>y\<in>A. (y, z) \<in> adjacency G)"
  by (auto simp: nbs_def neighbors_adjacency)

lemma side_refl: "v \<in> side G S v"
  by (simp add: side_def component_of_refl)

lemma side_eq: "w \<in> side G S v \<Longrightarrow> side G S w = side G S v"
  by (simp add: side_def component_of_eq)

lemma side_sym: "w \<in> side G S v \<Longrightarrow> v \<in> side G S w"
  using side_eq side_refl by blast

lemma side_step:
  "y \<in> side G S v \<Longrightarrow> (y, z) \<in> adjacency G \<Longrightarrow> y \<notin> S \<Longrightarrow> z \<notin> S \<Longrightarrow> z \<in> side G S v"
  unfolding side_def component_of_def adjacency_remove_nodes_from
  by (auto intro: rtrancl_into_rtrancl)

lemma side_induct [consumes 1, case_names base step]:
  assumes "w \<in> side G S v"
    and "P v"
    and "\<And>y z. y \<in> side G S v \<Longrightarrow> P y \<Longrightarrow> (y, z) \<in> adjacency G \<Longrightarrow> y \<notin> S \<Longrightarrow> z \<notin> S \<Longrightarrow> P z"
  shows "P w"
proof -
  have "(v, w) \<in> {(a, b). (a, b) \<in> adjacency G \<and> a \<notin> S \<and> b \<notin> S}\<^sup>*"
    using assms(1) by (simp add: side_def component_of_def adjacency_remove_nodes_from)
  then show ?thesis
  proof (induction rule: rtrancl_induct)
    case base
    then show ?case by (rule assms(2))
  next
    case (step y z)
    have "y \<in> side G S v"
      using step.hyps(1) by (simp add: side_def component_of_def adjacency_remove_nodes_from)
    then show ?case using step assms(3) by blast
  qed
qed

lemma side_not_removed: "w \<in> side G S v \<Longrightarrow> v \<notin> S \<Longrightarrow> w \<notin> S"
  by (induction rule: side_induct) auto

lemma side_mono: "w \<in> side G S v \<Longrightarrow> S' \<subseteq> S \<Longrightarrow> v \<notin> S \<Longrightarrow> w \<in> side G S' v"
proof (induction rule: side_induct)
  case base
  then show ?case by (simp add: side_refl)
next
  case (step y z)
  then show ?case by (meson side_step subsetD)
qed

lemma side_nodes: "w \<in> side G S v \<Longrightarrow> wf_graph G \<Longrightarrow> v \<in> set (nodes G) \<Longrightarrow> w \<in> set (nodes G)"
  by (induction rule: side_induct) (auto dest: adjacency_nodes)

lemma side_boundary:
  "y \<in> side G S v \<Longrightarrow> v \<notin> S \<Longrightarrow> (y, z) \<in> adjacency G \<Longrightarrow> z \<notin> side G S v \<Longrightarrow> z \<in> S"
  using side_step side_not_removed by blast

text \<open>A node of the separator with no neighbour on a side can be dropped without changing that side.\<close>

lemma side_drop:
  assumes "v \<notin> S" "\<forall>d\<in>side G S v. (d, s) \<notin> adjacency G" "w \<in> side G (S - {s}) v"
  shows "w \<in> side G S v"
  using assms(3)
proof (induction rule: side_induct)
  case base
  then show ?case by (simp add: side_refl)
next
  case (step y z)
  have "z \<noteq> s" using step assms(2) by blast
  moreover have "y \<notin> S" using step assms(1) side_not_removed by blast
  ultimately show ?case using step side_step by blast
qed

lemma separates_iff:
  "separates G trt outc S \<longleftrightarrow> S \<subseteq> set (nodes G) - {trt, outc} \<and> outc \<notin> side G S trt"
  by (simp add: separates_def side_def)

lemma minimal_full_treatment_side:
  assumes "minimal_separator G trt outc S" "s \<in> S"
  shows "\<exists>d\<in>side G S trt. (d, s) \<in> adjacency G"
proof (rule ccontr)
  assume "\<not> ?thesis"
  then have no: "\<forall>d\<in>side G S trt. (d, s) \<notin> adjacency G" by blast
  have sep: "separates G trt outc S" using assms(1) by (simp add: minimal_separator_def)
  then have "trt \<notin> S" by (auto simp: separates_iff)
  then have "outc \<notin> side G (S - {s}) trt"
    using side_drop[OF _ no] sep by (auto simp: separates_iff)
  then have "separates G trt outc (S - {s})" using sep by (auto simp: separates_iff)
  moreover have "S - {s} \<subset> S" using assms(2) by blast
  ultimately show False using assms(1) by (simp add: minimal_separator_def)
qed

lemma minimal_full_outcome_side:
  assumes "minimal_separator G trt outc S" "s \<in> S"
  shows "\<exists>d\<in>side G S outc. (d, s) \<in> adjacency G"
proof (rule ccontr)
  assume "\<not> ?thesis"
  then have no: "\<forall>d\<in>side G S outc. (d, s) \<notin> adjacency G" by blast
  have sep: "separates G trt outc S" using assms(1) by (simp add: minimal_separator_def)
  then have o: "outc \<notin> S" by (auto simp: separates_iff)
  have "trt \<notin> side G S outc" using sep side_sym by (auto simp: separates_iff)
  then have "trt \<notin> side G (S - {s}) outc" using side_drop[OF o no] by blast
  then have "outc \<notin> side G (S - {s}) trt" using side_sym by blast
  then have "separates G trt outc (S - {s})" using sep by (auto simp: separates_iff)
  moreover have "S - {s} \<subset> S" using assms(2) by blast
  ultimately show False using assms(1) by (simp add: minimal_separator_def)
qed

lemma full_sides_minimal:
  assumes sep: "separates G trt outc S"
    and full: "\<And>s. s \<in> S \<Longrightarrow> (\<exists>d\<in>side G S trt. (d, s) \<in> adjacency G) \<and>
                                  (\<exists>d\<in>side G S outc. (d, s) \<in> adjacency G)"
  shows "minimal_separator G trt outc S"
  unfolding minimal_separator_def
proof (intro conjI allI impI)
  show "separates G trt outc S" by (rule sep)
next
  fix S' assume sub: "S' \<subset> S"
  then obtain s where s: "s \<in> S" "s \<notin> S'" by blast
  have t: "trt \<notin> S" and o: "outc \<notin> S" using sep by (auto simp: separates_iff)
  obtain d1 where d1: "d1 \<in> side G S trt" "(d1, s) \<in> adjacency G" using full[OF s(1)] by blast
  obtain d2 where d2: "d2 \<in> side G S outc" "(d2, s) \<in> adjacency G" using full[OF s(1)] by blast
  have "d1 \<notin> S" using d1 t side_not_removed by blast
  moreover have "d1 \<in> side G S' trt" using side_mono[OF d1(1)] sub t by blast
  ultimately have st: "s \<in> side G S' trt" using side_step[OF _ d1(2)] s(2) sub by blast
  have "d2 \<notin> S" using d2 o side_not_removed by blast
  moreover have "d2 \<in> side G S' outc" using side_mono[OF d2(1)] sub o by blast
  ultimately have "s \<in> side G S' outc" using side_step[OF _ d2(2)] s(2) sub by blast
  then have "outc \<in> side G S' s" by (rule side_sym)
  then have "outc \<in> side G S' trt" using side_eq[OF st] by simp
  then show "\<not> separates G trt outc S'" by (simp add: separates_iff)
qed

lemma minimal_is_boundary:
  assumes "minimal_separator G trt outc S"
  shows "S = nbs G (side G S trt) - side G S trt"
proof -
  have sep: "separates G trt outc S" using assms by (simp add: minimal_separator_def)
  then have t: "trt \<notin> S" by (auto simp: separates_iff)
  show ?thesis
  proof (intro equalityI subsetI)
    fix s assume s: "s \<in> S"
    then obtain d where "d \<in> side G S trt" "(d, s) \<in> adjacency G"
      using minimal_full_treatment_side[OF assms] by blast
    moreover have "s \<notin> side G S trt" using s t side_not_removed by blast
    ultimately show "s \<in> nbs G (side G S trt) - side G S trt" by (auto simp: nbs_iff)
  next
    fix z assume "z \<in> nbs G (side G S trt) - side G S trt"
    then show "z \<in> S" using side_boundary[OF _ t] by (auto simp: nbs_iff)
  qed
qed

section \<open>The close separator of a connected set\<close>

lemma close_separator_component:
  assumes "wf_graph G" "Xs \<noteq> {}" "Xs \<subseteq> set (nodes G)"
  shows "close_separator G trt outc Xs =
     (if outc \<in> set (nodes G) - nbs G Xs then Inr (close_set G outc Xs) else Inl ValueError)"
proof -
  define N where "N = nbs G Xs"
  have nu: "neighbors_union G Xs = Inr N"
    using assms by (auto simp: neighbors_union_def N_def nbs_def)
  have wf': "wf_graph (remove_nodes_from G N)" using assms(1) by (rule wf_remove_nodes_from)
  show ?thesis
  proof (cases "outc \<in> set (nodes G) - N")
    case True
    define C where "C = side G N outc"
    have f: "find (\<lambda>c. outc \<in> c) (connected_components (remove_nodes_from G N)) = Some C"
      using True
      by (simp add: find_connected_components[OF wf'] nodes_remove_nodes_from C_def side_def)
    have "C \<subseteq> set (nodes G)"
      unfolding C_def using True side_nodes[OF _ assms(1)] by blast
    moreover have "C \<noteq> {}" unfolding C_def using side_refl by blast
    ultimately have "neighbors_union G C = Inr (nbs G C)"
      by (simp add: neighbors_union_def nbs_def)
    then show ?thesis
      using True nu f
      by (simp add: close_separator_def close_set_def N_def[symmetric] C_def[symmetric])
  next
    case False
    then have "find (\<lambda>c. outc \<in> c) (connected_components (remove_nodes_from G N)) = None"
      by (simp add: find_connected_components[OF wf'] nodes_remove_nodes_from)
    then show ?thesis
      using False nu by (simp add: close_separator_def N_def[symmetric])
  qed
qed

lemma connected_from:
  assumes "t \<in> A"
    and "\<And>w. w \<in> A \<Longrightarrow> (t, w) \<in> {(x, y). (x, y) \<in> adjacency G \<and> x \<in> A \<and> y \<in> A}\<^sup>*"
  shows "connected_in G A"
proof -
  let ?R = "{(x, y). (x, y) \<in> adjacency G \<and> x \<in> A \<and> y \<in> A}"
  have "sym ?R" by (auto simp: sym_def dest: adjacency_sym)
  then have s: "sym (?R\<^sup>*)" by (rule sym_rtrancl)
  show ?thesis
    unfolding connected_in_def
  proof (intro ballI)
    fix a b assume "a \<in> A" "b \<in> A"
    then have "(t, a) \<in> ?R\<^sup>*" "(t, b) \<in> ?R\<^sup>*" using assms(2) by blast+
    then have "(a, t) \<in> ?R\<^sup>*" using s by (simp add: sym_def)
    then show "(a, b) \<in> ?R\<^sup>*" using \<open>(t, b) \<in> ?R\<^sup>*\<close> by (rule rtrancl_trans)
  qed
qed

lemma connected_in_side:
  assumes "connected_in G A" "t \<in> A" "A \<inter> S = {}" "a \<in> A"
  shows "a \<in> side G S t"
proof -
  have "(t, a) \<in> {(x, y). (x, y) \<in> adjacency G \<and> x \<in> A \<and> y \<in> A}\<^sup>*"
    using assms by (simp add: connected_in_def)
  then show ?thesis
  proof (induction rule: rtrancl_induct)
    case base
    then show ?case by (rule side_refl)
  next
    case (step y z)
    then show ?case using side_step[of y G S t z] assms(3) by blast
  qed
qed

lemma side_connected:
  assumes "t \<notin> S"
  shows "connected_in G (side G S t)"
proof (rule connected_from)
  show "t \<in> side G S t" by (rule side_refl)
next
  fix w assume "w \<in> side G S t"
  then show "(t, w) \<in> {(x, y). (x, y) \<in> adjacency G \<and> x \<in> side G S t \<and> y \<in> side G S t}\<^sup>*"
  proof (induction rule: side_induct)
    case base
    then show ?case by simp
  next
    case (step y z)
    then have "z \<in> side G S t" using side_step by blast
    then have "(y, z) \<in> {(x, y). (x, y) \<in> adjacency G \<and> x \<in> side G S t \<and> y \<in> side G S t}"
      using step by simp
    then show ?case using step.IH by (rule rtrancl_into_rtrancl[rotated])
  qed
qed

lemma connected_in_insert:
  assumes "connected_in G A" "t \<in> A" "a \<in> A" "(a, n) \<in> adjacency G"
  shows "connected_in G (A \<union> {n})"
proof (rule connected_from[of t])
  show "t \<in> A \<union> {n}" using assms(2) by simp
next
  let ?R = "{(x, y). (x, y) \<in> adjacency G \<and> x \<in> A \<and> y \<in> A}"
  let ?R' = "{(x, y). (x, y) \<in> adjacency G \<and> x \<in> A \<union> {n} \<and> y \<in> A \<union> {n}}"
  have sub: "?R\<^sup>* \<subseteq> ?R'\<^sup>*" by (rule rtrancl_mono) auto
  fix w assume w: "w \<in> A \<union> {n}"
  have ta: "(t, a) \<in> ?R'\<^sup>*" using assms(1,2,3) sub by (auto simp: connected_in_def)
  show "(t, w) \<in> ?R'\<^sup>*"
  proof (cases "w \<in> A")
    case True
    then show ?thesis using assms(1,2) sub by (auto simp: connected_in_def)
  next
    case False
    then have "w = n" using w by simp
    moreover have "(a, n) \<in> ?R'" using assms(3,4) by simp
    ultimately show ?thesis using ta by (simp add: rtrancl_into_rtrancl)
  qed
qed

lemma inv_outcome_not_adjacent:
  assumes "sep_inv G trt outc A Y"
  shows "outc \<notin> nbs G A" and "outc \<notin> A"
proof -
  show "outc \<notin> A" using assms by (auto simp: sep_inv_def)
  show "outc \<notin> nbs G A"
  proof
    assume "outc \<in> nbs G A"
    then obtain a where a: "a \<in> A" "(a, outc) \<in> adjacency G" by (auto simp: nbs_iff)
    then have "a \<in> neighbors G outc" by (simp add: neighbors_adjacency adjacency_sym)
    then show False using a(1) assms by (auto simp: sep_inv_def)
  qed
qed

lemma inv_component_apart:
  assumes "sep_inv G trt outc A Y" "c \<in> side G (nbs G A) outc"
  shows "c \<notin> A" and "c \<notin> nbs G A"
proof -
  show n: "c \<notin> nbs G A"
    using assms(2) inv_outcome_not_adjacent(1)[OF assms(1)] by (rule side_not_removed)
  show "c \<notin> A"
    using assms(2)
  proof (induction rule: side_induct)
    case base
    then show ?case by (rule inv_outcome_not_adjacent(2)[OF assms(1)])
  next
    case (step y z)
    show ?case
    proof
      assume "z \<in> A"
      then have "y \<in> nbs G A" using step.hyps(2) by (auto simp: nbs_iff dest: adjacency_sym)
      then show False using step.hyps by simp
    qed
  qed
qed

lemma close_set_facts:
  assumes inv: "sep_inv G trt outc A Y" and s: "s \<in> close_set G outc A"
  shows "\<exists>a\<in>A. (a, s) \<in> adjacency G"
    and "\<exists>c\<in>side G (nbs G A) outc. (c, s) \<in> adjacency G"
    and "s \<notin> A" and "s \<notin> side G (nbs G A) outc" and "s \<in> set (nodes G)"
    and "s \<noteq> trt" and "s \<noteq> outc"
proof -
  obtain c where c: "c \<in> side G (nbs G A) outc" "(c, s) \<in> adjacency G"
    and ns: "s \<notin> side G (nbs G A) outc"
    using s by (auto simp: close_set_def nbs_iff)
  show "\<exists>c\<in>side G (nbs G A) outc. (c, s) \<in> adjacency G" using c by blast
  show "s \<notin> side G (nbs G A) outc" by (rule ns)
  have "s \<in> nbs G A"
    using side_boundary[OF c(1) inv_outcome_not_adjacent(1)[OF inv] c(2) ns] .
  then show "\<exists>a\<in>A. (a, s) \<in> adjacency G" by (simp add: nbs_iff)
  show sA: "s \<notin> A"
  proof
    assume "s \<in> A"
    then have "c \<in> nbs G A" using c(2) by (auto simp: nbs_iff dest: adjacency_sym)
    then show False using inv_component_apart(2)[OF inv c(1)] by simp
  qed
  show "s \<in> set (nodes G)" using c(2) inv adjacency_nodes by (auto simp: sep_inv_def)
  show "s \<noteq> trt" using sA inv by (auto simp: sep_inv_def)
  show "s \<noteq> outc" using ns side_refl by blast
qed

lemma close_set_outcome_side:
  assumes inv: "sep_inv G trt outc A Y"
  shows "side G (close_set G outc A) outc = side G (nbs G A) outc"
proof (intro equalityI subsetI)
  fix w assume "w \<in> side G (close_set G outc A) outc"
  then show "w \<in> side G (nbs G A) outc"
  proof (induction rule: side_induct)
    case base
    then show ?case by (rule side_refl)
  next
    case (step y z)
    then show ?case by (auto simp: close_set_def nbs_iff)
  qed
next
  fix w assume "w \<in> side G (nbs G A) outc"
  then show "w \<in> side G (close_set G outc A) outc"
  proof (induction rule: side_induct)
    case base
    then show ?case by (rule side_refl)
  next
    case (step y z)
    have "z \<in> side G (nbs G A) outc" using step side_step by blast
    then have "z \<notin> close_set G outc A" and "y \<notin> close_set G outc A"
      using step.hyps(1) by (auto simp: close_set_def)
    then show ?case using step side_step by blast
  qed
qed

lemma close_set_treatment_side:
  assumes inv: "sep_inv G trt outc A Y"
  shows "A \<subseteq> side G (close_set G outc A) trt"
proof
  fix a assume "a \<in> A"
  moreover have "A \<inter> close_set G outc A = {}" using close_set_facts(3)[OF inv] by blast
  ultimately show "a \<in> side G (close_set G outc A) trt"
    using inv connected_in_side[of G A trt "close_set G outc A" a] by (simp add: sep_inv_def)
qed

lemma close_set_separates:
  assumes inv: "sep_inv G trt outc A Y"
  shows "separates G trt outc (close_set G outc A)"
proof -
  have "close_set G outc A \<subseteq> set (nodes G) - {trt, outc}"
    using close_set_facts(5,6,7)[OF inv] by blast
  moreover have "outc \<notin> side G (close_set G outc A) trt"
  proof
    assume "outc \<in> side G (close_set G outc A) trt"
    then have "trt \<in> side G (close_set G outc A) outc" by (rule side_sym)
    then have "trt \<in> side G (nbs G A) outc" by (simp add: close_set_outcome_side[OF inv])
    then show False using inv_component_apart(1)[OF inv] inv by (auto simp: sep_inv_def)
  qed
  ultimately show ?thesis by (simp add: separates_iff)
qed

lemma close_set_minimal:
  assumes inv: "sep_inv G trt outc A Y"
  shows "minimal_separator G trt outc (close_set G outc A)"
proof (rule full_sides_minimal[OF close_set_separates[OF inv]])
  fix s assume s: "s \<in> close_set G outc A"
  have "\<exists>d\<in>side G (close_set G outc A) trt. (d, s) \<in> adjacency G"
    using close_set_facts(1)[OF inv s] close_set_treatment_side[OF inv] by blast
  moreover have "\<exists>d\<in>side G (close_set G outc A) outc. (d, s) \<in> adjacency G"
    using close_set_facts(2)[OF inv s] by (simp add: close_set_outcome_side[OF inv])
  ultimately show "(\<exists>d\<in>side G (close_set G outc A) trt. (d, s) \<in> adjacency G) \<and>
      (\<exists>d\<in>side G (close_set G outc A) outc. (d, s) \<in> adjacency G)" by blast
qed

text \<open>
  The close separator is the closest one: the treatment side it cuts off lies inside the
  treatment side of every minimal separator whose treatment side holds \<open>A\<close>.
\<close>

lemma close_set_closest:
  assumes inv: "sep_inv G trt outc A Y"
    and min: "minimal_separator G trt outc S" and sub: "A \<subseteq> side G S trt"
    and w: "w \<in> side G (close_set G outc A) trt"
  shows "w \<in> side G S trt"
proof -
  let ?C = "side G (nbs G A) outc"
  have sep: "separates G trt outc S" using min by (simp add: minimal_separator_def)
  then have t: "trt \<notin> S" and o: "outc \<notin> S" and ot: "outc \<notin> side G S trt"
    by (auto simp: separates_iff)
  have D: "d \<in> ?C" if "d \<in> side G S outc" for d
    using that
  proof (induction rule: side_induct)
    case base
    then show ?case by (rule side_refl)
  next
    case (step y z)
    have "z \<notin> nbs G A"
    proof
      assume "z \<in> nbs G A"
      then obtain a where a: "a \<in> A" "(a, z) \<in> adjacency G" by (auto simp: nbs_iff)
      then have "a \<in> side G S trt" using sub by blast
      moreover have "a \<notin> S" using calculation t side_not_removed by blast
      ultimately have "z \<in> side G S trt" using a(2) step.hyps(4) side_step by blast
      moreover have "z \<in> side G S outc" using step side_step by blast
      ultimately have "outc \<in> side G S trt" using side_eq side_refl by blast
      then show False using ot by simp
    qed
    moreover have "y \<notin> nbs G A" using step.IH inv_component_apart(2)[OF inv] by blast
    ultimately show ?case using step side_step by blast
  qed
  have S: "s \<in> ?C \<union> close_set G outc A" if sS: "s \<in> S" for s
  proof -
    obtain d where "d \<in> side G S outc" "(d, s) \<in> adjacency G"
      using minimal_full_outcome_side[OF min sS] by blast
    then show ?thesis using D by (auto simp: close_set_def nbs_iff)
  qed
  have "w \<in> side G S trt \<and> w \<notin> ?C"
    using w
  proof (induction rule: side_induct)
    case base
    then show ?case using side_refl inv_component_apart(1)[OF inv] inv by (auto simp: sep_inv_def)
  next
    case (step y z)
    have zC: "z \<notin> ?C"
    proof
      assume "z \<in> ?C"
      then have "y \<in> nbs G ?C" using step.hyps(2) by (auto simp: nbs_iff dest: adjacency_sym)
      then show False using step by (auto simp: close_set_def)
    qed
    then have "z \<notin> S" using S step.hyps(4) by blast
    moreover have "y \<notin> S" using step.IH t side_not_removed by blast
    ultimately show ?case using step zC side_step by blast
  qed
  then show ?thesis by simp
qed

lemma close_set_boundary:
  assumes inv: "sep_inv G trt outc A Y"
  shows "nbs G (side G (close_set G outc A) trt) - side G (close_set G outc A) trt =
         close_set G outc A"
  using minimal_is_boundary[OF close_set_minimal[OF inv]] by simp

lemma separator_step_inv:
  assumes inv: "sep_inv G trt outc A Y"
  shows "separator_step G trt outc A Y =
     (if side G (close_set G outc A) trt \<inter> Y \<noteq> {} then Stop []
      else if close_set G outc A - Y \<noteq> {}
           then Branch (close_set G outc A - Y) (side G (close_set G outc A) trt)
           else Stop [close_set G outc A])"
proof -
  let ?S = "close_set G outc A"
  have wf: "wf_graph G" and tV: "trt \<in> set (nodes G)" and A: "A \<noteq> {}" "A \<subseteq> set (nodes G)"
    and oV: "outc \<in> set (nodes G)"
    using inv by (auto simp: sep_inv_def)
  have cs: "close_separator G trt outc A = Inr ?S"
    using close_separator_component[OF wf A] inv_outcome_not_adjacent(1)[OF inv] oV by simp
  have "trt \<notin> ?S" using close_set_facts(6)[OF inv] by blast
  then have tc: "treatment_component trt (connected_components (remove_nodes_from G ?S)) =
      side G ?S trt"
    using tV
    by (simp add: treatment_component_connected_components[OF wf_remove_nodes_from[OF wf]]
        nodes_remove_nodes_from side_def)
  have "side G ?S trt \<subseteq> set (nodes G)" using side_nodes[OF _ wf tV] by blast
  moreover have "side G ?S trt \<noteq> {}" using side_refl by blast
  ultimately have nu: "neighbors_union G (side G ?S trt) = Inr (nbs G (side G ?S trt))"
    by (simp add: neighbors_union_def nbs_def)
  show ?thesis
    by (simp add: separator_step_def cs tc nu close_set_boundary[OF inv] Let_def)
qed

section \<open>The enumeration lists the separators between its arguments\<close>

lemma between_closest:
  assumes inv: "sep_inv G trt outc A Y" and min: "minimal_separator G trt outc S"
  shows "A \<subseteq> side G S trt \<longleftrightarrow> side G (close_set G outc A) trt \<subseteq> side G S trt"
  using close_set_closest[OF inv min] close_set_treatment_side[OF inv] by blast

lemma between_reached:
  assumes inv: "sep_inv G trt outc A Y" and "side G (close_set G outc A) trt \<inter> Y \<noteq> {}"
  shows "separators_between G trt outc A Y = {}"
proof -
  have False if "S \<in> separators_between G trt outc A Y" for S
  proof -
    have min: "minimal_separator G trt outc S" and A: "A \<subseteq> side G S trt"
      and Y: "side G S trt \<inter> Y = {}"
      using that by (auto simp: separators_between_def)
    have "side G (close_set G outc A) trt \<subseteq> side G S trt"
      using between_closest[OF inv min] A by simp
    then show False using Y assms(2) by blast
  qed
  then show ?thesis by blast
qed

lemma between_last:
  assumes inv: "sep_inv G trt outc A Y"
    and disj: "side G (close_set G outc A) trt \<inter> Y = {}"
    and sub: "close_set G outc A \<subseteq> Y"
  shows "separators_between G trt outc A Y = {close_set G outc A}"
proof (intro equalityI subsetI)
  fix S assume "S \<in> {close_set G outc A}"
  then show "S \<in> separators_between G trt outc A Y"
    using close_set_minimal[OF inv] close_set_treatment_side[OF inv] disj
    by (simp add: separators_between_def)
next
  let ?A' = "side G (close_set G outc A) trt"
  fix S assume "S \<in> separators_between G trt outc A Y"
  then have min: "minimal_separator G trt outc S" and A: "A \<subseteq> side G S trt"
    and Y: "side G S trt \<inter> Y = {}"
    by (auto simp: separators_between_def)
  have t: "trt \<notin> S" using min by (auto simp: minimal_separator_def separates_iff)
  have le: "?A' \<subseteq> side G S trt" using between_closest[OF inv min] A by simp
  have "w \<in> ?A'" if "w \<in> side G S trt" for w
    using that
  proof (induction rule: side_induct)
    case base
    then show ?case by (rule side_refl)
  next
    case (step y z)
    have "z \<in> side G S trt" using step side_step by blast
    then have "z \<notin> Y" using Y by blast
    then have "z \<notin> close_set G outc A" using sub by blast
    then have "z \<notin> nbs G ?A' - ?A'" by (simp add: close_set_boundary[OF inv])
    then show ?case using step by (auto simp: nbs_iff)
  qed
  then have "side G S trt = ?A'" using le by blast
  then have "S = nbs G ?A' - ?A'" using minimal_is_boundary[OF min] by simp
  then show "S \<in> {close_set G outc A}" by (simp add: close_set_boundary[OF inv])
qed

lemma between_branch:
  assumes inv: "sep_inv G trt outc A Y"
  shows "separators_between G trt outc A Y =
           separators_between G trt outc (side G (close_set G outc A) trt \<union> {n}) Y \<union>
           separators_between G trt outc (side G (close_set G outc A) trt) (Y \<union> {n})"
    and "separators_between G trt outc (side G (close_set G outc A) trt \<union> {n}) Y \<inter>
         separators_between G trt outc (side G (close_set G outc A) trt) (Y \<union> {n}) = {}"
  using between_closest[OF inv] by (auto simp: separators_between_def)

lemma inv_left:
  assumes inv: "sep_inv G trt outc A Y"
    and disj: "side G (close_set G outc A) trt \<inter> Y = {}"
    and n: "n \<in> close_set G outc A - Y"
  shows "sep_inv G trt outc (side G (close_set G outc A) trt \<union> {n}) Y"
proof -
  let ?S = "close_set G outc A"
  have wf: "wf_graph G" and tV: "trt \<in> set (nodes G)" using inv by (auto simp: sep_inv_def)
  have t: "trt \<notin> ?S" using close_set_facts(6)[OF inv] by blast
  obtain a where a: "a \<in> A" "(a, n) \<in> adjacency G" using close_set_facts(1)[OF inv] n by blast
  then have "a \<in> side G ?S trt" using close_set_treatment_side[OF inv] by blast
  then have "connected_in G (side G ?S trt \<union> {n})"
    using connected_in_insert[OF side_connected[OF t] side_refl _ a(2)] by blast
  moreover have "side G ?S trt \<subseteq> set (nodes G)" using side_nodes[OF _ wf tV] by blast
  moreover have "n \<in> set (nodes G)" using close_set_facts(5)[OF inv] n by blast
  ultimately show ?thesis
    using inv disj n side_refl[of trt G ?S] by (auto simp: sep_inv_def)
qed

lemma inv_right:
  assumes inv: "sep_inv G trt outc A Y"
    and disj: "side G (close_set G outc A) trt \<inter> Y = {}"
    and n: "n \<in> close_set G outc A - Y"
  shows "sep_inv G trt outc (side G (close_set G outc A) trt) (Y \<union> {n})"
proof -
  let ?S = "close_set G outc A"
  have wf: "wf_graph G" and tV: "trt \<in> set (nodes G)" using inv by (auto simp: sep_inv_def)
  have t: "trt \<notin> ?S" using close_set_facts(6)[OF inv] by blast
  have "n \<notin> side G ?S trt" using n t side_not_removed by blast
  moreover have "side G ?S trt \<subseteq> set (nodes G)" using side_nodes[OF _ wf tV] by blast
  ultimately show ?thesis
    using inv disj side_connected[OF t, of G] side_refl[of trt G ?S] by (auto simp: sep_inv_def)
qed

lemma measure_left:
  assumes inv: "sep_inv G trt outc A Y" and n: "n \<in> close_set G outc A - Y"
  shows "card (set (nodes G) - (side G (close_set G outc A) trt \<union> {n})) < card (set (nodes G) - A)"
proof (rule psubset_card_mono)
  show "finite (set (nodes G) - A)" by simp
  have "n \<in> set (nodes G)" "n \<notin> A" using close_set_facts(3,5)[OF inv] n by blast+
  then show "set (nodes G) - (side G (close_set G outc A) trt \<union> {n}) \<subset> set (nodes G) - A"
    using close_set_treatment_side[OF inv] by blast
qed

lemma measure_right:
  assumes inv: "sep_inv G trt outc A Y" and n: "n \<in> close_set G outc A - Y"
  shows "card (set (nodes G) - side G (close_set G outc A) trt) \<le> card (set (nodes G) - A)"
    and "card (set (nodes G) - (Y \<union> {n})) < card (set (nodes G) - Y)"
proof -
  show "card (set (nodes G) - side G (close_set G outc A) trt) \<le> card (set (nodes G) - A)"
    using close_set_treatment_side[OF inv] by (intro card_mono) auto
  have "n \<in> set (nodes G)" using close_set_facts(5)[OF inv] n by blast
  then show "card (set (nodes G) - (Y \<union> {n})) < card (set (nodes G) - Y)"
    using n by (intro psubset_card_mono) auto
qed

lemma list_all_min_sep_between:
  "sep_inv G trt outc A Y \<Longrightarrow>
   card (set (nodes G) - A) + card (set (nodes G) - Y) < k \<Longrightarrow>
   r \<in> list_all_min_sep k G trt outc A Y \<Longrightarrow>
   \<exists>L. r = Some (Inr L) \<and> distinct L \<and> set L = separators_between G trt outc A Y"
proof (induction k arbitrary: A Y r)
  case 0
  then show ?case by simp
next
  case (Suc k)
  let ?S = "close_set G outc A"
  let ?A' = "side G ?S trt"
  note inv = Suc.prems(1)
  show ?case
  proof (cases "?A' \<inter> Y \<noteq> {}")
    case True
    then have "r = Some (Inr [])"
      using Suc.prems(3) by (simp add: list_all_min_sep_step separator_step_inv[OF inv])
    then show ?thesis using between_reached[OF inv True] by simp
  next
    case False
    then have disj: "?A' \<inter> Y = {}" by simp
    show ?thesis
    proof (cases "?S - Y \<noteq> {}")
      case False
      then have "r = Some (Inr [?S])"
        using Suc.prems(3) disj by (simp add: list_all_min_sep_step separator_step_inv[OF inv])
      moreover have "separators_between G trt outc A Y = {?S}"
        using between_last[OF inv disj] False by blast
      ultimately show ?thesis by simp
    next
      case True
      then have "r \<in> (\<Union>n\<in>?S - Y. yield_both (list_all_min_sep k G trt outc (?A' \<union> {n}) Y)
                                     (list_all_min_sep k G trt outc ?A' (Y \<union> {n})))"
        using Suc.prems(3) disj by (simp add: list_all_min_sep_step separator_step_inv[OF inv])
      then obtain n l r' where n: "n \<in> ?S - Y"
        and l: "l \<in> list_all_min_sep k G trt outc (?A' \<union> {n}) Y"
        and r': "r' \<in> list_all_min_sep k G trt outc ?A' (Y \<union> {n})"
        and r: "r = yield_then l r'"
        by (auto simp: yield_both_def)
      have "card (set (nodes G) - (?A' \<union> {n})) + card (set (nodes G) - Y) < k"
        using measure_left[OF inv n] Suc.prems(2) by linarith
      then obtain Ll where Ll: "l = Some (Inr Ll)" "distinct Ll"
        "set Ll = separators_between G trt outc (?A' \<union> {n}) Y"
        using Suc.IH[OF inv_left[OF inv disj n] _ l] by blast
      have "card (set (nodes G) - ?A') + card (set (nodes G) - (Y \<union> {n})) < k"
        using measure_right[OF inv n] Suc.prems(2) by linarith
      then obtain Lr where Lr: "r' = Some (Inr Lr)" "distinct Lr"
        "set Lr = separators_between G trt outc ?A' (Y \<union> {n})"
        using Suc.IH[OF inv_right[OF inv disj n] _ r'] by blast
      have "r = Some (Inr (Ll @ Lr))" using r Ll(1) Lr(1) by simp
      moreover have "distinct (Ll @ Lr)"
        using Ll(2,3) Lr(2,3) between_branch(2)[OF inv, of n] by simp
      moreover have "set (Ll @ Lr) = separators_between G trt outc A Y"
        using Ll(3) Lr(3) between_branch(1)[OF inv, of n] by simp
      ultimately show ?thesis by blast
    qed
  qed
qed

text \<open>From the anchors themselves the enumeration is of all minimal separators.\<close>

lemma between_anchors:
  assumes "trt \<noteq> outc"
  shows "separators_between G trt outc {trt} (neighbors G outc \<union> {outc}) =
         {S. minimal_separator G trt outc S}"
proof -
  have "side G S trt \<inter> (neighbors G outc \<union> {outc}) = {}" if "minimal_separator G trt outc S" for S
  proof -
    have o: "outc \<notin> S" "outc \<notin> side G S trt" and t: "trt \<notin> S"
      using that by (auto simp: minimal_separator_def separates_iff)
    have "z \<notin> side G S trt" if "z \<in> neighbors G outc" for z
    proof
      assume z: "z \<in> side G S trt"
      then have "z \<notin> S" using t side_not_removed by blast
      moreover have "(z, outc) \<in> adjacency G"
        using \<open>z \<in> neighbors G outc\<close> by (simp add: neighbors_adjacency adjacency_sym)
      ultimately show False using side_step[OF z] o by blast
    qed
    then show ?thesis using o by blast
  qed
  then show ?thesis using side_refl by (auto simp: separators_between_def)
qed

lemma inv_anchors:
  assumes "wf_graph G" "trt \<in> set (nodes G)" "outc \<in> set (nodes G)" "trt \<noteq> outc"
    "trt \<notin> neighbors G outc"
  shows "sep_inv G trt outc {trt} (neighbors G outc \<union> {outc})"
  using assms by (auto simp: sep_inv_def connected_in_def)

lemma fuel_anchors:
  assumes "trt \<in> set (nodes G)" "outc \<in> set (nodes G)" "2 * length (nodes G) \<le> fuel"
  shows "card (set (nodes G) - {trt}) + card (set (nodes G) - (neighbors G outc \<union> {outc})) < fuel"
proof -
  have "card (set (nodes G) - {trt}) < card (set (nodes G))"
    using assms(1) by (intro psubset_card_mono) auto
  moreover have "card (set (nodes G) - (neighbors G outc \<union> {outc})) < card (set (nodes G))"
    using assms(2) by (intro psubset_card_mono) auto
  moreover have "card (set (nodes G)) \<le> length (nodes G)" by (rule card_length)
  ultimately show ?thesis using assms(3) by linarith
qed

lemma list_all_min_sep_anchors:
  assumes "wf_graph G" "trt \<in> set (nodes G)" "outc \<in> set (nodes G)" "trt \<noteq> outc"
    "trt \<notin> neighbors G outc" "2 * length (nodes G) \<le> fuel"
    "r \<in> list_all_min_sep fuel G trt outc {trt} (neighbors G outc \<union> {outc})"
  shows "\<exists>L. r = Some (Inr L) \<and> distinct L \<and> set L = {S. minimal_separator G trt outc S}"
proof -
  have "\<exists>L. r = Some (Inr L) \<and> distinct L \<and>
      set L = separators_between G trt outc {trt} (neighbors G outc \<union> {outc})"
    by (rule list_all_min_sep_between[OF inv_anchors[OF assms(1-5)] fuel_anchors[OF assms(2,3,6)]
          assms(7)])
  then show ?thesis unfolding between_anchors[OF assms(4)] .
qed

lemma separator_graph_outcomes:
  "list_all_min_sep (3 + j) separator_graph (NStr ''a'') (NStr ''b'') {NStr ''a''}
     (neighbors separator_graph (NStr ''b'') \<union> {NStr ''b''}) =
   {Some (Inr [{NInt 4, NInt 5}, {NInt 3, NInt 4}, {NInt 2, NInt 3}])}"
proof -
  have a: "list_all_min_sep 3 separator_graph (NStr ''a'') (NStr ''b'') {NStr ''a''}
     (neighbors separator_graph (NStr ''b'') \<union> {NStr ''b''}) =
   {Some (Inr [{NInt 4, NInt 5}, {NInt 3, NInt 4}, {NInt 2, NInt 3}])}"
    by code_simp
  show ?thesis
    using list_all_min_sep_more_fuel[of 3 separator_graph "NStr ''a''" "NStr ''b''" "{NStr ''a''}"
        "neighbors separator_graph (NStr ''b'') \<union> {NStr ''b''}" j]
    unfolding a by simp
qed

lemma separator_graph_anchors:
  "wf_graph separator_graph \<and> NStr ''a'' \<in> set (nodes separator_graph) \<and>
   NStr ''b'' \<in> set (nodes separator_graph) \<and> NStr ''a'' \<noteq> NStr ''b'' \<and>
   NStr ''a'' \<notin> neighbors separator_graph (NStr ''b'') \<and>
   2 * length (nodes separator_graph) \<le> 12"
  by code_simp

lemma separator_graph_three_sets:
  "set [{NInt 4, NInt 5}, {NInt 3, NInt 4}, {NInt 2, NInt 3}] =
     {{NInt 2, NInt 3}, {NInt 3, NInt 4}, {NInt 4, NInt 5 :: node}}"
  by (simp add: insert_commute)

lemma separator_graph_minimal_separators:
  "{S. minimal_separator separator_graph (NStr ''a'') (NStr ''b'') S} =
   {{NInt 2, NInt 3}, {NInt 3, NInt 4}, {NInt 4, NInt 5}}"
proof -
  have "Some (Inr [{NInt 4, NInt 5}, {NInt 3, NInt 4}, {NInt 2, NInt 3}]) \<in>
      list_all_min_sep 12 separator_graph (NStr ''a'') (NStr ''b'') {NStr ''a''}
        (neighbors separator_graph (NStr ''b'') \<union> {NStr ''b''})"
    using separator_graph_outcomes[of 9] by simp
  then have "\<exists>L. (Some (Inr [{NInt 4, NInt 5}, {NInt 3, NInt 4}, {NInt 2, NInt 3}]) :: outcome) = Some (Inr L) \<and>
      distinct L \<and> set L = {S. minimal_separator separator_graph (NStr ''a'') (NStr ''b'') S}"
    using separator_graph_anchors list_all_min_sep_anchors[of separator_graph "NStr ''a''" "NStr ''b''" 12]
    by presburger
  then obtain L where "[{NInt 4, NInt 5}, {NInt 3, NInt 4}, {NInt 2, NInt 3}] = L"
    "set L = {S. minimal_separator separator_graph (NStr ''a'') (NStr ''b'') S}"
    by blast
  then show ?thesis using separator_graph_three_sets by simp
qed

section \<open>The criterion when the proper causal pathway is not empty\<close>

lemma plain_bfs_nodes:
  assumes "\<And>a b. b \<in> nb a \<Longrightarrow> b \<in> V" "v \<in> V"
  shows "plain_bfs nb n v \<subseteq> V"
proof
  fix w assume "w \<in> plain_bfs nb n v"
  then have "(v, w) \<in> {(a, b). b \<in> nb a}\<^sup>*"
    using bfs_levels_sound[of "{v}" v nb "{v}" n] by (auto simp: plain_bfs_def)
  then show "w \<in> V"
    by (induction rule: rtrancl_induct) (use assms in auto)
qed

lemma bfs_levels_seen: "seen \<subseteq> bfs_levels nb n seen level"
proof (induction n arbitrary: seen level)
  case 0
  then show ?case by simp
next
  case (Suc n)
  show ?case
  proof (cases "level = {}")
    case True
    then show ?thesis by simp
  next
    case False
    then show ?thesis
      using Suc.IH[of "seen \<union> ((\<Union>x\<in>level. nb x) - seen)" "(\<Union>x\<in>level. nb x) - seen"]
      by (simp add: Let_def)
  qed
qed

lemma ebind_Inr: "ebind (Inr x) f = f x"
  by (simp add: ebind_def)

lemma collect_union:
  "(\<And>x. x \<in> set xs \<Longrightarrow> f x = Inr (g x)) \<Longrightarrow> collect f xs = Inr (\<Union>x\<in>set xs. g x)"
  by (induction xs) auto

lemma proper_causal_pathway_nodes:
  assumes "wf_graph G" "proper_causal_pathway G treatments outcomes = Inr p"
  shows "p \<subseteq> set (nodes G)"
proof -
  obtain d where d: "union_all (\<lambda>t. ebind (descendants G t) (\<lambda>d. Inr (d \<union> {t}))) treatments = Inr d"
    using assms(2) by (auto simp: proper_causal_pathway_def ebind_def split: sum.splits)
  have "p \<subseteq> d" using assms(2) d
    by (auto simp: proper_causal_pathway_def ebind_def Let_def split: sum.splits)
  moreover have "d \<subseteq> set (nodes G)"
  proof -
    have ok: "t \<in> set (nodes G)" if "t \<in> set treatments" for t
    proof (rule ccontr)
      assume "t \<notin> set (nodes G)"
      then have "ebind (descendants G t) (\<lambda>d. Inr (d \<union> {t})) = Inl NetworkXError"
        by (simp add: descendants_def ebind_def)
      then have "\<exists>e. collect (\<lambda>t. ebind (descendants G t) (\<lambda>d. Inr (d \<union> {t}))) treatments = Inl e"
        using that by (induction treatments) (auto split: sum.splits)
      then show False using d by (auto simp: union_all_def)
    qed
    have succ: "b \<in> set (nodes G)" if "b \<in> successors G a" for a b
      using that assms(1) by (auto simp: successors_def wf_graph_def list_all_iff)
    have "ebind (descendants G t) (\<lambda>d. Inr (d \<union> {t})) =
          Inr (plain_bfs (successors G) (length (nodes G)) t - {t} \<union> {t})"
      if "t \<in> set treatments" for t
      using ok[OF that] by (simp add: descendants_def ebind_def)
    then have "collect (\<lambda>t. ebind (descendants G t) (\<lambda>d. Inr (d \<union> {t}))) treatments =
          Inr (\<Union>t\<in>set treatments. plain_bfs (successors G) (length (nodes G)) t - {t} \<union> {t})"
      by (rule collect_union)
    then have "d = (\<Union>t\<in>set treatments. plain_bfs (successors G) (length (nodes G)) t - {t} \<union> {t})"
      using d by (auto simp: union_all_def split: if_splits)
    then show ?thesis using ok plain_bfs_nodes[of "successors G" "set (nodes G)"] succ by fastforce
  qed
  ultimately show ?thesis by blast
qed

text \<open>
  When the proper causal pathway is not empty the criterion answers, and its answer is the
  conjunction of the two conditions.
\<close>

lemma constructive_backdoor_criterion_answers:
  assumes "wf_graph G" "proper_causal_pathway G treatments outcomes = Inr p" "p \<noteq> {}"
  shows "constructive_backdoor_criterion dsep G pbg treatments outcomes covariates =
     Inr (covariates \<subseteq> set (nodes G) \<and>
          covariates \<inter> (\<Union>v\<in>p. plain_bfs (successors G) (length (nodes G)) v) = {} \<and>
          dsep pbg (set treatments) (set outcomes) covariates)"
proof -
  have pV: "p \<subseteq> set (nodes G)" using proper_causal_pathway_nodes[OF assms(1,2)] .
  then have s: "set (set_in_order G p) = p" by (auto simp: set_in_order_def)
  then have ne: "set_in_order G p \<noteq> []" using assms(3) by auto
  have "ebind (descendants G v) (\<lambda>d. Inr (d \<union> {v})) =
        Inr (plain_bfs (successors G) (length (nodes G)) v - {v} \<union> {v})"
    if "v \<in> set (set_in_order G p)" for v
    using that pV s by (auto simp: descendants_def ebind_def)
  then have "collect (\<lambda>v. ebind (descendants G v) (\<lambda>d. Inr (d \<union> {v}))) (set_in_order G p) =
        Inr (\<Union>v\<in>set (set_in_order G p). plain_bfs (successors G) (length (nodes G)) v - {v} \<union> {v})"
    by (rule collect_union)
  moreover have "(\<Union>v\<in>p. plain_bfs (successors G) (length (nodes G)) v - {v} \<union> {v}) =
      (\<Union>v\<in>p. plain_bfs (successors G) (length (nodes G)) v)"
  proof -
    have "v \<in> plain_bfs (successors G) (length (nodes G)) v" for v
      using bfs_levels_seen[of "{v}"] by (simp add: plain_bfs_def)
    then show ?thesis by blast
  qed
  ultimately have u: "union_all (\<lambda>v. ebind (descendants G v) (\<lambda>d. Inr (d \<union> {v}))) (set_in_order G p) =
      Inr (\<Union>v\<in>p. plain_bfs (successors G) (length (nodes G)) v)"
    using ne s by (simp add: union_all_def)
  show ?thesis
    unfolding constructive_backdoor_criterion_def assms(2) ebind_Inr u
    by auto
qed

lemma smaller_sets_fail_all:
  assumes "\<And>Z'. constructive_backdoor_criterion dsep G pbg treatments outcomes Z' = Inr (c Z')"
  shows "smaller_sets_fail dsep G pbg treatments outcomes Z zs =
         Inr (\<forall>z\<in>set zs. \<not> c (Z - {z}))"
  by (induction zs) (auto simp: assms split: bool.splits)

text \<open>
  When the proper causal pathway is not empty, \<^verbatim>\<open>adjustment_set_is_minimal\<close> raises
  ValueError for a set that fails the criterion, and otherwise says whether every set with
  one element less fails it.
\<close>

lemma adjustment_set_is_minimal_answers:
  assumes "wf_graph G" "get_proper_backdoor_graph G treatments outcomes = Inr pbg"
    "proper_causal_pathway G treatments outcomes = Inr p" "p \<noteq> {}"
  shows "adjustment_set_is_minimal dsep G treatments outcomes Z =
     (if constructive_backdoor_criterion dsep G pbg treatments outcomes Z = Inr False
      then Inl ValueError
      else Inr (\<forall>z\<in>Z. constructive_backdoor_criterion dsep G pbg treatments outcomes (Z - {z}) =
                         Inr False))"
proof -
  define c where "c Z' = (Z' \<subseteq> set (nodes G) \<and>
          Z' \<inter> (\<Union>v\<in>p. plain_bfs (successors G) (length (nodes G)) v) = {} \<and>
          dsep pbg (set treatments) (set outcomes) Z')" for Z'
  have cbc: "constructive_backdoor_criterion dsep G pbg treatments outcomes Z' = Inr (c Z')" for Z'
    unfolding c_def by (rule constructive_backdoor_criterion_answers[OF assms(1,3,4)])
  show ?thesis
  proof (cases "c Z")
    case False
    then show ?thesis
      by (simp add: adjustment_set_is_minimal_def assms(2) ebind_Inr cbc)
  next
    case True
    then have "Z \<subseteq> set (nodes G)" by (simp add: c_def)
    then have "set (set_in_order G Z) = Z" by (auto simp: set_in_order_def)
    then show ?thesis
      using True
      by (simp add: adjustment_set_is_minimal_def assms(2) ebind_Inr cbc
          smaller_sets_fail_all[of dsep G pbg treatments outcomes c, OF cbc])
  qed
qed

section \<open>Acyclicity on insertion\<close>

text \<open>
  C4.  \<^verbatim>\<open>add_edge\<close> is to raise the cycle error and leave the graph as it was when the new
  edge closes a cycle.  The graph the object holds after the call is the one with the edge
  inserted, whether the call raises or not.  On the acyclic graph \<open>A\<rightarrow>B, B\<rightarrow>C, D\<rightarrow>A, D\<rightarrow>C\<close> the call
  \<^verbatim>\<open>add_edge('C', 'A')\<close> raises the error, but the graph it leaves behind holds the edge
  \<open>C\<rightarrow>A\<close>: its edge set differs from the one before the call and it is no longer acyclic.
\<close>

theorem add_edge_cycle_stays_in_graph:
  "snd (add_edge G u v) = nx_add_edge G u v \<and>
   (u, v) \<in> set (edges (snd (add_edge G u v))) \<and>
   wf_graph abcd_dag \<and> is_acyclic abcd_dag \<and>
   add_edge abcd_dag (NStr ''C'') (NStr ''A'') =
     (Inl HasACycle, abcd_dag\<lparr>edges := edges abcd_dag @ [(NStr ''C'', NStr ''A'')]\<rparr>) \<and>
   set (edges (snd (add_edge abcd_dag (NStr ''C'') (NStr ''A'')))) \<noteq> set (edges abcd_dag) \<and>
   \<not> is_acyclic (snd (add_edge abcd_dag (NStr ''C'') (NStr ''A'')))"
proof -
  have a: "snd (add_edge G u v) = nx_add_edge G u v"
    by (simp add: add_edge_def Let_def)
  have b: "(u, v) \<in> set (edges (nx_add_edge G u v))"
    by (simp add: nx_add_edge_def add_node_def Let_def)
  have c: "wf_graph abcd_dag \<and> is_acyclic abcd_dag \<and>
     add_edge abcd_dag (NStr ''C'') (NStr ''A'') =
       (Inl HasACycle, abcd_dag\<lparr>edges := edges abcd_dag @ [(NStr ''C'', NStr ''A'')]\<rparr>) \<and>
     set (edges (snd (add_edge abcd_dag (NStr ''C'') (NStr ''A'')))) \<noteq> set (edges abcd_dag) \<and>
     \<not> is_acyclic (snd (add_edge abcd_dag (NStr ''C'') (NStr ''A'')))"
    by code_simp
  have "(u, v) \<in> set (edges (snd (add_edge G u v)))"
    unfolding a by (rule b)
  with a c show ?thesis by blast
qed

section \<open>The constructive back-door criterion\<close>

text \<open>
  C3.  The criterion is to return true exactly when no covariate descends from the proper
  causal pathway and the covariates d-separate treatments from outcomes in the proper
  back-door graph.  On the fork \<open>Z\<rightarrow>X, Z\<rightarrow>Y\<close> with treatment \<open>X\<close>, outcome \<open>Y\<close> and
  covariate \<open>Z\<close> the proper causal pathway is empty, so condition (1) holds for every
  covariate set; the function takes the union of an empty list of descendant sets and
  raises TypeError, whatever the d-separation test answers.
\<close>

theorem constructive_backdoor_criterion_fork_raises:
  "wf_graph fork_dag \<and> is_acyclic fork_dag \<and>
   proper_causal_pathway fork_dag [NStr ''X''] [NStr ''Y''] = Inr {} \<and>
   get_proper_backdoor_graph fork_dag [NStr ''X''] [NStr ''Y''] = Inr fork_dag \<and>
   (\<forall>dsep. constructive_backdoor_criterion dsep fork_dag fork_dag [NStr ''X''] [NStr ''Y'']
             {NStr ''Z''} = Inl TypeError)"
proof -
  have a: "wf_graph fork_dag \<and> is_acyclic fork_dag \<and>
      proper_causal_pathway fork_dag [NStr ''X''] [NStr ''Y''] = Inr {} \<and>
      get_proper_backdoor_graph fork_dag [NStr ''X''] [NStr ''Y''] = Inr fork_dag"
    by code_simp
  then have "constructive_backdoor_criterion dsep fork_dag fork_dag [NStr ''X''] [NStr ''Y'']
             {NStr ''Z''} = Inl TypeError" for dsep
    by (simp add: constructive_backdoor_criterion_def ebind_def union_all_def set_in_order_def)
  with a show ?thesis by blast
qed

text \<open>
  C5.  \<^verbatim>\<open>adjustment_set_is_minimal\<close> is to raise the invalid-adjustment-set error
  (ValueError) for a set that fails the criterion and to return a boolean otherwise.  On the
  fork \<open>Z\<rightarrow>X, Z\<rightarrow>Y\<close> with treatment \<open>X\<close> and outcome \<open>Y\<close> it does neither, for the
  adjustment set \<open>{Z}\<close> as for the empty one: the TypeError of the criterion comes through.
\<close>

theorem adjustment_set_is_minimal_fork_raises:
  "adjustment_set_is_minimal dsep fork_dag [NStr ''X''] [NStr ''Y''] {NStr ''Z''} = Inl TypeError \<and>
   adjustment_set_is_minimal dsep fork_dag [NStr ''X''] [NStr ''Y''] {} = Inl TypeError"
proof -
  have a: "proper_causal_pathway fork_dag [NStr ''X''] [NStr ''Y''] = Inr {} \<and>
      get_proper_backdoor_graph fork_dag [NStr ''X''] [NStr ''Y''] = Inr fork_dag"
    by code_simp
  then have "constructive_backdoor_criterion dsep fork_dag fork_dag [NStr ''X''] [NStr ''Y'']
             Z = Inl TypeError" for Z
    by (simp add: constructive_backdoor_criterion_def ebind_def union_all_def set_in_order_def)
  with a show ?thesis
    by (simp add: adjustment_set_is_minimal_def ebind_def)
qed

section \<open>Conditional independence relationships\<close>

text \<open>
  C10.  A graph with fewer than two nodes gives \<open>None\<close>, not the empty list, under every
  heuristic.
\<close>

theorem list_conditional_independence_relationships_none:
  "length (nodes G) < 2 \<Longrightarrow>
     list_conditional_independence_relationships dsep G search_heuristic = None"
  by (simp add: list_conditional_independence_relationships_def)

theorem list_conditional_independence_relationships_none_witness:
  "length (nodes \<lparr>nodes = [NStr ''A''], edges = []\<rparr>) < 2 \<and>
   list_conditional_independence_relationships (\<lambda>G x y z. True)
     \<lparr>nodes = [NStr ''A''], edges = []\<rparr> ''maximal'' = None"
  using list_conditional_independence_relationships_none
          [of "\<lparr>nodes = [NStr ''A''], edges = []\<rparr>" "\<lambda>G x y z. True" "''maximal''"]
  by simp

text \<open>
  C9.  Under the maximal heuristic the sizes are to run from the number \<open>n\<close> of remaining
  nodes down to 1.  The code runs them from \<open>n + 1\<close> down to 2: size 1 is never tried.  On the chain \<open>A\<rightarrow>B\<rightarrow>C\<close> the pair \<open>(A, C)\<close> has one remaining node, \<open>B\<close>; whatever
  the d-separation test answers, also when it says that \<open>{B}\<close> separates \<open>A\<close> from \<open>C\<close>,
  the result holds no relationship with a non-empty conditioning set.
\<close>

theorem maximal_never_tries_size_one:
  "adjustment_set_sizes ''maximal'' n = rev [2..<n + 2] \<and>
   1 \<notin> set (adjustment_set_sizes ''maximal'' n) \<and>
   list_conditional_independence_relationships dsep chain_dag ''maximal'' =
     Some (concat (map (\<lambda>p. if dsep chain_dag {fst p} {snd p} {}
                             then [\<lparr>ci_X = fst p, ci_Y = snd p, ci_Z = {}\<rparr>] else [])
             [(NStr ''A'', NStr ''B''), (NStr ''A'', NStr ''C''), (NStr ''B'', NStr ''C'')]))"
proof -
  have a: "adjustment_set_sizes ''maximal'' n = rev [2..<n + 2]"
    by (simp add: adjustment_set_sizes_def numeral_2_eq_2)
  have b: "1 \<notin> set (adjustment_set_sizes ''maximal'' n)"
    unfolding a by simp
  have c: "list_conditional_independence_relationships dsep chain_dag ''maximal'' =
     Some (concat (map (\<lambda>p. if dsep chain_dag {fst p} {snd p} {}
                             then [\<lparr>ci_X = fst p, ci_Y = snd p, ci_Z = {}\<rparr>] else [])
             [(NStr ''A'', NStr ''B''), (NStr ''A'', NStr ''C''), (NStr ''B'', NStr ''C'')]))"
    by (simp add: list_conditional_independence_relationships_def chain_dag_def
        relationships_of_pair_def adjustment_set_sizes_def valid_sets_of_size_def)
  show ?thesis using a b c by blast
qed

section \<open>The proper back-door graph\<close>

text \<open>
  C7.  For non-empty lists of treatments and outcomes that are nodes of the graph,
  \<^verbatim>\<open>get_proper_backdoor_graph\<close> keeps every node and removes exactly the edges that leave a
  treatment and enter the proper causal pathway; every other edge stays, in its place.  In
  the scenario graph with treatments \<open>X1, X2\<close> and outcome \<open>Y\<close> the one edge removed is
  \<open>X2 \<rightarrow> D1\<close>.
\<close>

theorem get_proper_backdoor_graph_removes_first_edges:
  "(treatments \<noteq> [] \<and> outcomes \<noteq> [] \<and> set treatments \<union> set outcomes \<subseteq> set (nodes G) \<longrightarrow>
      (\<exists>pcp. proper_causal_pathway G treatments outcomes = Inr pcp \<and>
         get_proper_backdoor_graph G treatments outcomes =
           Inr \<lparr>nodes = nodes G,
                edges = filter (\<lambda>e. \<not> (fst e \<in> set treatments \<and> snd e \<in> pcp)) (edges G)\<rparr>)) \<and>
   get_proper_backdoor_graph scenario_dag [NStr ''X1'', NStr ''X2''] [NStr ''Y''] =
     Inr \<lparr>nodes = nodes scenario_dag,
          edges = filter (\<lambda>e. e \<noteq> (NStr ''X2'', NStr ''D1'')) (edges scenario_dag)\<rparr>"
proof (intro conjI impI)
  assume a: "treatments \<noteq> [] \<and> outcomes \<noteq> [] \<and> set treatments \<union> set outcomes \<subseteq> set (nodes G)"
  then obtain pcp where pcp: "proper_causal_pathway G treatments outcomes = Inr pcp"
    using proper_causal_pathway_Inr by blast
  have "list_all (\<lambda>var. var \<in> set (nodes G)) (treatments @ outcomes)"
    using a by (auto simp: list_all_iff)
  then have "get_proper_backdoor_graph G treatments outcomes =
      Inr \<lparr>nodes = nodes G,
           edges = filter (\<lambda>e. \<not> (fst e \<in> set treatments \<and> snd e \<in> pcp)) (edges G)\<rparr>"
    using pcp by (simp add: get_proper_backdoor_graph_def ebind_def remove_first_edges)
  with pcp show "\<exists>pcp. proper_causal_pathway G treatments outcomes = Inr pcp \<and>
         get_proper_backdoor_graph G treatments outcomes =
           Inr \<lparr>nodes = nodes G,
                edges = filter (\<lambda>e. \<not> (fst e \<in> set treatments \<and> snd e \<in> pcp)) (edges G)\<rparr>"
    by blast
next
  show "get_proper_backdoor_graph scenario_dag [NStr ''X1'', NStr ''X2''] [NStr ''Y''] =
     Inr \<lparr>nodes = nodes scenario_dag,
          edges = filter (\<lambda>e. e \<noteq> (NStr ''X2'', NStr ''D1'')) (edges scenario_dag)\<rparr>"
    by code_simp
qed

theorem get_proper_backdoor_graph_removes_first_edges_witness:
  "[NStr ''X1'', NStr ''X2''] \<noteq> [] \<and> [NStr ''Y''] \<noteq> [] \<and>
   set [NStr ''X1'', NStr ''X2''] \<union> set [NStr ''Y''] \<subseteq> set (nodes scenario_dag) \<and>
   proper_causal_pathway scenario_dag [NStr ''X1'', NStr ''X2''] [NStr ''Y''] =
     Inr {NStr ''D1'', NStr ''Y''} \<and>
   get_proper_backdoor_graph scenario_dag [NStr ''X1'', NStr ''X2''] [NStr ''Y''] =
     Inr \<lparr>nodes = nodes scenario_dag,
          edges = filter (\<lambda>e. \<not> (fst e \<in> {NStr ''X1'', NStr ''X2''} \<and>
                                   snd e \<in> {NStr ''D1'', NStr ''Y''})) (edges scenario_dag)\<rparr>"
proof -
  have p: "proper_causal_pathway scenario_dag [NStr ''X1'', NStr ''X2''] [NStr ''Y''] =
     Inr {NStr ''D1'', NStr ''Y''}"
    by code_simp
  have h: "[NStr ''X1'', NStr ''X2''] \<noteq> [] \<and> [NStr ''Y''] \<noteq> [] \<and>
      set [NStr ''X1'', NStr ''X2''] \<union> set [NStr ''Y''] \<subseteq> set (nodes scenario_dag)"
    by (simp add: scenario_dag_def)
  have "\<exists>pcp. proper_causal_pathway scenario_dag [NStr ''X1'', NStr ''X2''] [NStr ''Y''] = Inr pcp \<and>
      get_proper_backdoor_graph scenario_dag [NStr ''X1'', NStr ''X2''] [NStr ''Y''] =
        Inr \<lparr>nodes = nodes scenario_dag,
             edges = filter (\<lambda>e. \<not> (fst e \<in> set [NStr ''X1'', NStr ''X2''] \<and> snd e \<in> pcp))
                       (edges scenario_dag)\<rparr>"
    by (rule get_proper_backdoor_graph_removes_first_edges
              [of "[NStr ''X1'', NStr ''X2'']" "[NStr ''Y'']" scenario_dag, THEN conjunct1,
               THEN mp, OF h])
  then show ?thesis using h p by (elim exE conjE) simp
qed

section \<open>The close separator\<close>

text \<open>
  C8.  For a set \<open>Xs\<close> of nodes of the graph that holds the treatment anchor,
  \<^verbatim>\<open>close_separator\<close> removes the neighbours \<open>N\<close> of \<open>Xs\<close>, takes the component \<open>C\<close> of the
  outcome anchor in what remains, and returns the neighbours of \<open>C\<close> in the original graph
  without \<open>C\<close> itself; it raises ValueError when the outcome anchor is not a node of what
  remains.  On the graph \<open>a-2, a-3, 2-4, 3-5, 3-4, 4-b, 5-b\<close> with \<open>Xs = {a}\<close> it returns
  \<open>{2, 3}\<close>.
\<close>

theorem close_separator_is_neighbourhood_of_outcome_component:
  "(wf_graph G \<and> trt \<in> Xs \<and> Xs \<subseteq> set (nodes G) \<longrightarrow>
      close_separator G trt outc Xs =
        (let N = (\<Union>x\<in>Xs. neighbors G x)
         in if outc \<in> set (nodes G) - N
            then (let C = component_of (remove_nodes_from G N) outc
                  in Inr ((\<Union>c\<in>C. neighbors G c) - C))
            else Inl ValueError)) \<and>
   close_separator separator_graph (NStr ''a'') (NStr ''b'') {NStr ''a''} = Inr {NInt 2, NInt 3}"
proof (intro conjI impI)
  assume a: "wf_graph G \<and> trt \<in> Xs \<and> Xs \<subseteq> set (nodes G)"
  then have "Xs \<noteq> {}" by blast
  then have "close_separator G trt outc Xs =
     (if outc \<in> set (nodes G) - nbs G Xs then Inr (close_set G outc Xs) else Inl ValueError)"
    using a close_separator_component by blast
  then show "close_separator G trt outc Xs =
        (let N = (\<Union>x\<in>Xs. neighbors G x)
         in if outc \<in> set (nodes G) - N
            then (let C = component_of (remove_nodes_from G N) outc
                  in Inr ((\<Union>c\<in>C. neighbors G c) - C))
            else Inl ValueError)"
    by (simp add: close_set_def nbs_def side_def Let_def)
next
  show "close_separator separator_graph (NStr ''a'') (NStr ''b'') {NStr ''a''} =
        Inr {NInt 2, NInt 3}"
    by code_simp
qed

theorem close_separator_is_neighbourhood_of_outcome_component_witness:
  "wf_graph separator_graph \<and> NStr ''a'' \<in> {NStr ''a''} \<and>
   {NStr ''a''} \<subseteq> set (nodes separator_graph) \<and>
   (\<Union>x\<in>{NStr ''a''}. neighbors separator_graph x) = {NInt 2, NInt 3} \<and>
   NStr ''b'' \<in> set (nodes separator_graph) - {NInt 2, NInt 3} \<and>
   close_separator separator_graph (NStr ''a'') (NStr ''b'') {NStr ''a''} =
     Inr ((\<Union>c\<in>component_of (remove_nodes_from separator_graph {NInt 2, NInt 3}) (NStr ''b'').
             neighbors separator_graph c) -
          component_of (remove_nodes_from separator_graph {NInt 2, NInt 3}) (NStr ''b''))"
proof -
  have h: "wf_graph separator_graph \<and> NStr ''a'' \<in> {NStr ''a''} \<and>
      {NStr ''a''} \<subseteq> set (nodes separator_graph)"
    by code_simp
  have n: "(\<Union>x\<in>{NStr ''a''}. neighbors separator_graph x) = {NInt 2, NInt 3}"
    by code_simp
  have b: "NStr ''b'' \<in> set (nodes separator_graph) - {NInt 2, NInt 3}"
    by code_simp
  have "close_separator separator_graph (NStr ''a'') (NStr ''b'') {NStr ''a''} =
        (let N = (\<Union>x\<in>{NStr ''a''}. neighbors separator_graph x)
         in if NStr ''b'' \<in> set (nodes separator_graph) - N
            then (let C = component_of (remove_nodes_from separator_graph N) (NStr ''b'')
                  in Inr ((\<Union>c\<in>C. neighbors separator_graph c) - C))
            else Inl ValueError)"
    by (rule close_separator_is_neighbourhood_of_outcome_component
              [of separator_graph "NStr ''a''" "{NStr ''a''}" "NStr ''b''", THEN conjunct1,
               THEN mp, OF h])
  then show ?thesis
    using h b unfolding n Let_def by simp
qed

section \<open>Minimal adjustment sets of the scenarios\<close>

text \<open>
  C2.  On the scenario graph with treatments \<open>X1, X2\<close> and outcome \<open>Y\<close>, whatever nodes the
  enumeration branches on, \<^verbatim>\<open>enumerate_minimal_adjustment_sets\<close> returns the one-element
  list \<open>[{Z}]\<close>; on the M-bias graph it returns a list of exactly the sets \<open>{Z1}\<close>, \<open>{Z2}\<close>,
  \<open>{Z3}\<close>, each once.  Fuel 4 is enough, and more fuel changes nothing.
\<close>

theorem enumerate_minimal_adjustment_sets_scenarios:
  "enumerate_minimal_adjustment_sets (4 + j) scenario_dag [NStr ''X1'', NStr ''X2''] [NStr ''Y''] =
     {Some (Inr [{NStr ''Z''}])} \<and>
   enumerate_minimal_adjustment_sets (4 + j) m_bias_dag [NStr ''X1'', NStr ''X2''] [NStr ''Y''] =
     {Some (Inr [{NStr ''Z3''}, {NStr ''Z2''}, {NStr ''Z1''}])} \<and>
   set [{NStr ''Z3''}, {NStr ''Z2''}, {NStr ''Z1''}] = {{NStr ''Z1''}, {NStr ''Z2''}, {NStr ''Z3''}} \<and>
   distinct [{NStr ''Z3''}, {NStr ''Z2''}, {NStr ''Z1''}]"
proof -
  have a: "adjustment_pipeline get_proper_backdoor_graph 4 scenario_dag
             [NStr ''X1'', NStr ''X2''] [NStr ''Y''] = {Some (Inr [{NStr ''Z''}])}"
    by code_simp
  have b: "adjustment_pipeline get_proper_backdoor_graph 4 m_bias_dag
             [NStr ''X1'', NStr ''X2''] [NStr ''Y''] =
           {Some (Inr [{NStr ''Z3''}, {NStr ''Z2''}, {NStr ''Z1''}])}"
    by code_simp
  have c: "set [{NStr ''Z3''}, {NStr ''Z2''}, {NStr ''Z1''}] =
             {{NStr ''Z1''}, {NStr ''Z2''}, {NStr ''Z3''}} \<and>
           distinct [{NStr ''Z3''}, {NStr ''Z2''}, {NStr ''Z1''}]"
    by auto
  show ?thesis
    using adjustment_pipeline_more_fuel[of get_proper_backdoor_graph 4 scenario_dag
            "[NStr ''X1'', NStr ''X2'']" "[NStr ''Y'']" j]
          adjustment_pipeline_more_fuel[of get_proper_backdoor_graph 4 m_bias_dag
            "[NStr ''X1'', NStr ''X2'']" "[NStr ''Y'']" j]
          c
    unfolding enumerate_is_pipeline a b by simp
qed

section \<open>Adjustment sets for the direct effect\<close>

text \<open>
  C6.  \<^verbatim>\<open>direct_effect_adjustment_sets\<close> is to be the pipeline of
  \<^verbatim>\<open>enumerate_minimal_adjustment_sets\<close> started from the indirect graph.  On the scenario
  graph with treatments \<open>X1, X2\<close> and outcome \<open>Y\<close> the code does not connect the neighbours
  and starts the enumeration from the treatments and the outcomes themselves: whatever it
  branches on, it returns \<open>{Y}\<close>, the set of outcomes itself, and \<open>{D1, Z}\<close>, where that
  pipeline returns only \<open>{D1, Z}\<close>.
\<close>

theorem direct_effect_is_not_the_enumerate_pipeline:
  "\<forall>j. direct_effect_adjustment_sets (4 + j) scenario_dag [NStr ''X1'', NStr ''X2''] [NStr ''Y''] =
         {Some (Inr [set [NStr ''Y''], {NStr ''D1'', NStr ''Z''}])} \<and>
       adjustment_pipeline get_indirect_graph (4 + j) scenario_dag
         [NStr ''X1'', NStr ''X2''] [NStr ''Y''] = {Some (Inr [{NStr ''D1'', NStr ''Z''}])} \<and>
       direct_effect_adjustment_sets (4 + j) scenario_dag [NStr ''X1'', NStr ''X2''] [NStr ''Y''] \<noteq>
       adjustment_pipeline get_indirect_graph (4 + j) scenario_dag
         [NStr ''X1'', NStr ''X2''] [NStr ''Y'']"
proof
  fix j
  have a: "direct_effect_adjustment_sets 4 scenario_dag [NStr ''X1'', NStr ''X2''] [NStr ''Y''] =
           {Some (Inr [{NStr ''Y''}, {NStr ''D1'', NStr ''Z''}])}"
    by code_simp
  have b: "adjustment_pipeline get_indirect_graph 4 scenario_dag
             [NStr ''X1'', NStr ''X2''] [NStr ''Y''] = {Some (Inr [{NStr ''D1'', NStr ''Z''}])}"
    by code_simp
  have a': "direct_effect_adjustment_sets (4 + j) scenario_dag [NStr ''X1'', NStr ''X2'']
              [NStr ''Y''] = {Some (Inr [{NStr ''Y''}, {NStr ''D1'', NStr ''Z''}])}"
    using direct_effect_more_fuel[of 4 scenario_dag "[NStr ''X1'', NStr ''X2'']" "[NStr ''Y'']" j]
    unfolding a by simp
  have b': "adjustment_pipeline get_indirect_graph (4 + j) scenario_dag
             [NStr ''X1'', NStr ''X2''] [NStr ''Y''] = {Some (Inr [{NStr ''D1'', NStr ''Z''}])}"
    using adjustment_pipeline_more_fuel[of get_indirect_graph 4 scenario_dag
            "[NStr ''X1'', NStr ''X2'']" "[NStr ''Y'']" j]
    unfolding b by simp
  show "direct_effect_adjustment_sets (4 + j) scenario_dag [NStr ''X1'', NStr ''X2''] [NStr ''Y''] =
         {Some (Inr [set [NStr ''Y''], {NStr ''D1'', NStr ''Z''}])} \<and>
       adjustment_pipeline get_indirect_graph (4 + j) scenario_dag
         [NStr ''X1'', NStr ''X2''] [NStr ''Y''] = {Some (Inr [{NStr ''D1'', NStr ''Z''}])} \<and>
       direct_effect_adjustment_sets (4 + j) scenario_dag [NStr ''X1'', NStr ''X2''] [NStr ''Y''] \<noteq>
       adjustment_pipeline get_indirect_graph (4 + j) scenario_dag
         [NStr ''X1'', NStr ''X2''] [NStr ''Y'']"
    unfolding a' b' by simp
qed

section \<open>The enumeration of minimal separators\<close>

text \<open>
  C1, as stated: from any disjoint node sets that hold the anchors the enumeration yields
  every minimal separator.  In the graph \<open>a-2, a-3, 2-4, 3-5, 3-4, 4-b, 5-b\<close> the set
  \<open>{2, 3}\<close> is a minimal separator of \<open>a\<close> and \<open>b\<close>; from the node sets \<open>{a}\<close> and \<open>{b}\<close>
  the generator yields nothing and raises ValueError, whatever it branches on.
\<close>

theorem list_all_min_sep_outcome_set_too_small:
  "minimal_separator separator_graph (NStr ''a'') (NStr ''b'') {NInt 2, NInt 3} \<and>
   NStr ''a'' \<in> {NStr ''a''} \<and> NStr ''b'' \<in> {NStr ''b''} \<and> {NStr ''a''} \<inter> {NStr ''b''} = {} \<and>
   (\<forall>j. list_all_min_sep (4 + j) separator_graph (NStr ''a'') (NStr ''b'') {NStr ''a''}
          {NStr ''b''} = {Some (Inl ValueError)})"
proof -
  have a: "list_all_min_sep 4 separator_graph (NStr ''a'') (NStr ''b'') {NStr ''a''}
          {NStr ''b''} = {Some (Inl ValueError)}"
    by code_simp
  have "list_all_min_sep (4 + j) separator_graph (NStr ''a'') (NStr ''b'') {NStr ''a''}
          {NStr ''b''} = {Some (Inl ValueError)}" for j
    using list_all_min_sep_more_fuel[of 4 separator_graph "NStr ''a''" "NStr ''b''" "{NStr ''a''}"
        "{NStr ''b''}" j]
    unfolding a by simp
  moreover have "minimal_separator separator_graph (NStr ''a'') (NStr ''b'') {NInt 2, NInt 3}"
  proof -
    have "{NInt 2, NInt 3} \<in> {S. minimal_separator separator_graph (NStr ''a'') (NStr ''b'') S}"
      unfolding separator_graph_minimal_separators by simp
    then show ?thesis by simp
  qed
  ultimately show ?thesis by simp
qed

text \<open>
  C1, amended.  In a graph whose edges join nodes of the graph, let the treatment node set
  be a connected set of nodes that holds the treatment anchor, and let the outcome node set
  hold the outcome anchor and all its neighbours and be disjoint from the treatment node set.
  Then, whatever the generator branches on, it stops without an error once the fuel exceeds
  the number of nodes outside the one set plus the number outside the other, and it yields,
  each exactly once, the minimal separators of the anchors whose treatment side (the
  component of the treatment anchor once the separator is removed) holds the treatment node
  set and has no node of the outcome node set.  From \<open>{t}\<close> and \<open>neighbors(o) \<union> {o}\<close>, for
  distinct anchors that are not adjacent, these are all the minimal separators.  On the graph
  \<open>a-2, a-3, 2-4, 3-5, 3-4, 4-b, 5-b\<close> the yielded sets are \<open>{2,3}\<close>, \<open>{3,4}\<close>, \<open>{4,5}\<close>.
\<close>

theorem list_all_min_sep_yields_each_separator_once:
  "(wf_graph G \<and> trt \<in> Xs \<and> Xs \<subseteq> set (nodes G) \<and> connected_in G Xs \<and>
    outc \<in> set (nodes G) \<and> neighbors G outc \<union> {outc} \<subseteq> Ys \<and> Xs \<inter> Ys = {} \<and>
    card (set (nodes G) - Xs) + card (set (nodes G) - Ys) < fuel \<longrightarrow>
      list_all_min_sep fuel G trt outc Xs Ys \<noteq> {} \<and>
      (\<forall>r\<in>list_all_min_sep fuel G trt outc Xs Ys.
         \<exists>L. r = Some (Inr L) \<and> distinct L \<and>
             set L = {S. minimal_separator G trt outc S \<and>
                         Xs \<subseteq> component_of (remove_nodes_from G S) trt \<and>
                         component_of (remove_nodes_from G S) trt \<inter> Ys = {}})) \<and>
   (wf_graph G \<and> trt \<in> set (nodes G) \<and> outc \<in> set (nodes G) \<and> trt \<noteq> outc \<and>
    trt \<notin> neighbors G outc \<and> 2 * length (nodes G) \<le> fuel \<longrightarrow>
      list_all_min_sep fuel G trt outc {trt} (neighbors G outc \<union> {outc}) \<noteq> {} \<and>
      (\<forall>r\<in>list_all_min_sep fuel G trt outc {trt} (neighbors G outc \<union> {outc}).
         \<exists>L. r = Some (Inr L) \<and> distinct L \<and> set L = {S. minimal_separator G trt outc S})) \<and>
   (\<forall>j. list_all_min_sep (3 + j) separator_graph (NStr ''a'') (NStr ''b'') {NStr ''a''}
          (neighbors separator_graph (NStr ''b'') \<union> {NStr ''b''}) =
        {Some (Inr [{NInt 4, NInt 5}, {NInt 3, NInt 4}, {NInt 2, NInt 3}])}) \<and>
   set [{NInt 4, NInt 5}, {NInt 3, NInt 4}, {NInt 2, NInt 3}] =
     {{NInt 2, NInt 3}, {NInt 3, NInt 4}, {NInt 4, NInt 5}}"
proof (intro conjI impI ballI allI)
  assume a: "wf_graph G \<and> trt \<in> Xs \<and> Xs \<subseteq> set (nodes G) \<and> connected_in G Xs \<and>
    outc \<in> set (nodes G) \<and> neighbors G outc \<union> {outc} \<subseteq> Ys \<and> Xs \<inter> Ys = {} \<and>
    card (set (nodes G) - Xs) + card (set (nodes G) - Ys) < fuel"
  show "list_all_min_sep fuel G trt outc Xs Ys \<noteq> {}" by (rule list_all_min_sep_nonempty)
  fix r assume r: "r \<in> list_all_min_sep fuel G trt outc Xs Ys"
  have inv: "sep_inv G trt outc Xs Ys" using a by (simp add: sep_inv_def)
  have "card (set (nodes G) - Xs) + card (set (nodes G) - Ys) < fuel" using a by simp
  then have "\<exists>L. r = Some (Inr L) \<and> distinct L \<and> set L = separators_between G trt outc Xs Ys"
    using list_all_min_sep_between[OF inv _ r] by blast
  then show "\<exists>L. r = Some (Inr L) \<and> distinct L \<and>
             set L = {S. minimal_separator G trt outc S \<and>
                         Xs \<subseteq> component_of (remove_nodes_from G S) trt \<and>
                         component_of (remove_nodes_from G S) trt \<inter> Ys = {}}"
    by (simp add: separators_between_def side_def)
next
  assume a: "wf_graph G \<and> trt \<in> set (nodes G) \<and> outc \<in> set (nodes G) \<and> trt \<noteq> outc \<and>
    trt \<notin> neighbors G outc \<and> 2 * length (nodes G) \<le> fuel"
  show "list_all_min_sep fuel G trt outc {trt} (neighbors G outc \<union> {outc}) \<noteq> {}"
    by (rule list_all_min_sep_nonempty)
  fix r assume "r \<in> list_all_min_sep fuel G trt outc {trt} (neighbors G outc \<union> {outc})"
  then show "\<exists>L. r = Some (Inr L) \<and> distinct L \<and> set L = {S. minimal_separator G trt outc S}"
    using a by (intro list_all_min_sep_anchors) simp_all
next
  fix j
  show "list_all_min_sep (3 + j) separator_graph (NStr ''a'') (NStr ''b'') {NStr ''a''}
          (neighbors separator_graph (NStr ''b'') \<union> {NStr ''b''}) =
        {Some (Inr [{NInt 4, NInt 5}, {NInt 3, NInt 4}, {NInt 2, NInt 3}])}"
    by (rule separator_graph_outcomes)
next
  show "set [{NInt 4, NInt 5}, {NInt 3, NInt 4}, {NInt 2, NInt 3}] =
     {{NInt 2, NInt 3}, {NInt 3, NInt 4}, {NInt 4, NInt 5}}"
    by (rule separator_graph_three_sets)
qed

theorem list_all_min_sep_yields_each_separator_once_witness:
  "wf_graph separator_graph \<and> NStr ''a'' \<in> set (nodes separator_graph) \<and>
   NStr ''b'' \<in> set (nodes separator_graph) \<and> NStr ''a'' \<noteq> NStr ''b'' \<and>
   NStr ''a'' \<notin> neighbors separator_graph (NStr ''b'') \<and>
   2 * length (nodes separator_graph) \<le> 12 \<and>
   Some (Inr [{NInt 4, NInt 5}, {NInt 3, NInt 4}, {NInt 2, NInt 3}]) \<in>
     list_all_min_sep 12 separator_graph (NStr ''a'') (NStr ''b'') {NStr ''a''}
       (neighbors separator_graph (NStr ''b'') \<union> {NStr ''b''}) \<and>
   {S. minimal_separator separator_graph (NStr ''a'') (NStr ''b'') S} =
     {{NInt 2, NInt 3}, {NInt 3, NInt 4}, {NInt 4, NInt 5}}"
proof -
  have m: "Some (Inr [{NInt 4, NInt 5}, {NInt 3, NInt 4}, {NInt 2, NInt 3}]) \<in>
      list_all_min_sep 12 separator_graph (NStr ''a'') (NStr ''b'') {NStr ''a''}
        (neighbors separator_graph (NStr ''b'') \<union> {NStr ''b''})"
    using separator_graph_outcomes[of 9] by simp
  have all: "\<forall>r\<in>list_all_min_sep 12 separator_graph (NStr ''a'') (NStr ''b'') {NStr ''a''}
             (neighbors separator_graph (NStr ''b'') \<union> {NStr ''b''}).
          \<exists>L. r = Some (Inr L) \<and> distinct L \<and>
              set L = {S. minimal_separator separator_graph (NStr ''a'') (NStr ''b'') S}"
    by (rule list_all_min_sep_yields_each_separator_once
            [of separator_graph "NStr ''a''" "{NStr ''a''}" "NStr ''b''" "{}" 12,
             THEN conjunct2, THEN conjunct1, THEN mp, OF separator_graph_anchors,
             THEN conjunct2])
  have "\<exists>L. (Some (Inr [{NInt 4, NInt 5}, {NInt 3, NInt 4}, {NInt 2, NInt 3}]) :: outcome) = Some (Inr L) \<and>
      distinct L \<and> set L = {S. minimal_separator separator_graph (NStr ''a'') (NStr ''b'') S}"
    using bspec[OF all m] .
  then obtain L where "[{NInt 4, NInt 5}, {NInt 3, NInt 4}, {NInt 2, NInt 3}] = L"
    "set L = {S. minimal_separator separator_graph (NStr ''a'') (NStr ''b'') S}"
    by blast
  then have "{S. minimal_separator separator_graph (NStr ''a'') (NStr ''b'') S} =
     {{NInt 2, NInt 3}, {NInt 3, NInt 4}, {NInt 4, NInt 5}}"
    using separator_graph_three_sets by simp
  then show ?thesis using separator_graph_anchors m by (simp only: simp_thms)
qed

end
